theory Spec2Isabelle
  imports Main "HOL-Library.Word"
begin

section \<open>Inactive regions: the semantic-token pipeline of inactive-regions.ts\<close>

text \<open>
  The module keeps, for each document, the most recent semantic tokens and the ranges of
  inactive code computed from them. A token stream is a \<open>Uint32Array\<close> of five integers
  per token (delta line, delta start character, length, token type, token modifiers).

  Conventions of the embedding:
  \<^item> an element of a \<open>Uint32Array\<close> is a \<open>32 word\<close>; a read outside the array is
    \<open>undefined\<close>, a write outside the array is ignored, a value stored is reduced
    modulo \<open>2 ^ 32\<close> and \<open>undefined\<close> is stored as \<open>0\<close>;
  \<^item> the line numbers and characters that the code computes are doubles: non-negative
    integers, and the sum of two of them is the exact sum rounded to the nearest double, ties
    to the even significand (they stay far below the range where a double overflows);
  \<^item> array lengths and offsets are integers far below \<open>2 ^ 53\<close>, where the arithmetic of
    doubles is exact, and are modelled by integers;
  \<^item> arrays are objects: they live in a heap and are named by addresses, so that a
    function writing into an array is seen to write into that array and no other.
\<close>

subsection \<open>Values\<close>

type_synonym u32 = "32 word"

text \<open>
  The values that the extraction loop computes with: a number (a double whose value is a
  non-negative integer), \<open>NaN\<close>, or \<open>undefined\<close>.
\<close>

datatype jsval = Num nat | NaN | Undefined

text \<open>
  Rounding a non-negative integer to the nearest double. A double has a significand of 53
  bits: \<open>double_exponent n\<close> is the number of low bits of \<open>n\<close> that do not fit, and they are
  rounded away, to the nearest, a tie going to the even significand.
\<close>

function double_exponent :: "nat \<Rightarrow> nat" where
  "double_exponent n = (if n < 2 ^ 53 then 0 else Suc (double_exponent (n div 2)))"
  by pat_completeness auto
termination
  by (relation "measure (\<lambda>n. n)") auto

definition round_double :: "nat \<Rightarrow> nat" where
  "round_double n =
     (let e = double_exponent n; q = n div 2 ^ e; r = n mod 2 ^ e
      in if 2 * r < 2 ^ e then q * 2 ^ e
         else if 2 ^ e < 2 * r then (q + 1) * 2 ^ e
         else if even q then q * 2 ^ e
         else (q + 1) * 2 ^ e)"

text \<open>\<open>a + b\<close> on such values: anything but two numbers gives \<open>NaN\<close>.\<close>

fun js_add :: "jsval \<Rightarrow> jsval \<Rightarrow> jsval" where
  "js_add (Num a) (Num b) = Num (round_double (a + b))"
| "js_add _ _ = NaN"

text \<open>\<open>a < b\<close>: false unless both are numbers (\<open>undefined\<close> converts to \<open>NaN\<close>).\<close>

fun js_lt :: "jsval \<Rightarrow> jsval \<Rightarrow> bool" where
  "js_lt (Num a) (Num b) = (a < b)"
| "js_lt _ _ = False"

text \<open>\<open>a == b\<close>: numbers compare by value, \<open>undefined == undefined\<close> holds, \<open>NaN\<close> equals nothing.\<close>

fun js_loose_eq :: "jsval \<Rightarrow> jsval \<Rightarrow> bool" where
  "js_loose_eq (Num a) (Num b) = (a = b)"
| "js_loose_eq Undefined Undefined = True"
| "js_loose_eq _ _ = False"

text \<open>\<open>a === 0\<close>.\<close>

fun js_is_zero :: "jsval \<Rightarrow> bool" where
  "js_is_zero (Num a) = (a = 0)"
| "js_is_zero _ = False"

text \<open>Reading \<open>xs[i]\<close> and writing \<open>xs[i] = v\<close> on a \<open>Uint32Array\<close>.\<close>

definition rd :: "u32 list \<Rightarrow> int \<Rightarrow> u32 option" where
  "rd xs i = (if 0 \<le> i \<and> i < int (length xs) then Some (xs ! nat i) else None)"

definition wr :: "u32 list \<Rightarrow> int \<Rightarrow> u32 option \<Rightarrow> u32 list" where
  "wr xs i v =
     (if 0 \<le> i \<and> i < int (length xs)
      then xs[nat i := (case v of None \<Rightarrow> 0 | Some w \<Rightarrow> w)]
      else xs)"

definition to_jsval :: "u32 option \<Rightarrow> jsval" where
  "to_jsval v = (case v of None \<Rightarrow> Undefined | Some w \<Rightarrow> Num (unat w))"

text \<open>The value of a variable of type \<open>number | undefined\<close>.\<close>

definition var_val :: "nat option \<Rightarrow> jsval" where
  "var_val v = (case v of None \<Rightarrow> Undefined | Some n \<Rightarrow> Num n)"

text \<open>What a \<open>Uint32Array\<close> stores when such a variable is assigned to an element.\<close>

definition var_u32 :: "nat option \<Rightarrow> u32 option" where
  "var_u32 v = (case v of None \<Rightarrow> None | Some n \<Rightarrow> Some (of_nat n))"

subsection \<open>The heap of arrays\<close>

type_synonym addr = nat
type_synonym heap = "u32 list list"

text \<open>The contents of the array at an address.\<close>

definition arr :: "heap \<Rightarrow> addr \<Rightarrow> u32 list" where
  "arr h a = (if a < length h then h ! a else [])"

text \<open>
  Placing a newly created array in the heap: it gets an address that no existing array has.
\<close>

definition alloc :: "heap \<Rightarrow> u32 list \<Rightarrow> heap \<times> addr" where
  "alloc h xs = (h @ [xs], length h)"

datatype error = RangeError

text \<open>\<open>new Uint32Array(n)\<close>: \<open>n\<close> zeros, and a \<open>RangeError\<close> for a negative length.\<close>

definition new_Uint32Array :: "int \<Rightarrow> error + u32 list" where
  "new_Uint32Array n = (if n < 0 then Inl RangeError else Inr (replicate (nat n) 0))"

subsection \<open>Data\<close>

text \<open>
  Tokens name their array by its address; the result id may be missing. The \<open>start\<close> and
  \<open>deleteCount\<close> of an edit are unsigned integers of the protocol; the data of an edit is only
  read, so an edit carries its contents.
\<close>

record SemanticTokens =
  resultId :: "string option"
  data :: addr

record SemanticTokensEdit =
  start :: nat
  deleteCount :: nat
  edit_data :: "u32 list option"

record SemanticTokensEdits =
  edits_resultId :: "string option"
  edits :: "SemanticTokensEdit list"

datatype payload = Full SemanticTokens | Delta SemanticTokensEdits

text \<open>
  \<open>vscode.Position\<close> and \<open>vscode.Range\<close> are classes of the host, not of this module; they are
  modelled from the VS Code API. A position is a line and a character; its constructor
  rejects a line or a character below \<open>0\<close>, which no value here is. A range stores two
  positions in order: its constructor keeps \<open>start\<close> and \<open>end\<close> when \<open>start.isBefore(end)\<close>
  and swaps them otherwise.
\<close>

type_synonym Position = "jsval \<times> jsval"

record Range =
  startLine :: jsval
  startCharacter :: jsval
  endLine :: jsval
  endCharacter :: jsval

definition isBefore :: "Position \<Rightarrow> Position \<Rightarrow> bool" where
  "isBefore p other =
     (if js_lt (fst p) (fst other) then True
      else if js_lt (fst other) (fst p) then False
      else js_lt (snd p) (snd other))"

definition new_Range :: "Position \<Rightarrow> Position \<Rightarrow> Range" where
  "new_Range start_pos end_pos =
     (if isBefore start_pos end_pos
      then \<lparr>startLine = fst start_pos, startCharacter = snd start_pos,
            endLine = fst end_pos, endCharacter = snd end_pos\<rparr>
      else \<lparr>startLine = fst end_pos, startCharacter = snd end_pos,
            endLine = fst start_pos, endCharacter = snd start_pos\<rparr>)"

record SemanticTokensLegend =
  tokenTypes :: "string list"

record SemanticTokensOptions =
  legend :: SemanticTokensLegend

record ServerCapabilities =
  semanticTokensProvider :: "SemanticTokensOptions option"

subsection \<open>The token type indices\<close>

text \<open>
  The two module variables. \<open>inactiveCodeTokenTypeIndex\<close> starts as \<open>undefined\<close>;
  \<open>inactiveCodeTokenTypeReplaceIndex\<close> is declared without a value, which is \<open>undefined\<close> too.
\<close>

record indices =
  inactiveCodeTokenTypeIndex :: "nat option"
  inactiveCodeTokenTypeReplaceIndex :: "nat option"

definition initial_indices :: indices where
  "initial_indices =
     \<lparr>inactiveCodeTokenTypeIndex = None, inactiveCodeTokenTypeReplaceIndex = None\<rparr>"

text \<open>The scan of \<open>initialize\<close>: every index holding \<open>'comment'\<close> is recorded in turn.\<close>

function initialize_loop :: "string list \<Rightarrow> nat \<Rightarrow> nat option \<Rightarrow> nat option" where
  "initialize_loop tts i idx =
     (if i < length tts
      then initialize_loop tts (i + 1) (if tts ! i = ''comment'' then Some i else idx)
      else idx)"
  by pat_completeness auto
termination
  by (relation "measure (\<lambda>(tts, i, idx). length tts - i)") auto

definition initialize :: "ServerCapabilities \<Rightarrow> indices \<Rightarrow> indices" where
  "initialize capabilities g =
     (case semanticTokensProvider capabilities of
        None \<Rightarrow> g
      | Some provider \<Rightarrow>
          (let tts = tokenTypes (legend provider) in
           \<lparr>inactiveCodeTokenTypeIndex =
              initialize_loop tts 0 (inactiveCodeTokenTypeIndex g),
            inactiveCodeTokenTypeReplaceIndex = Some (length tts)\<rparr>))"

subsection \<open>Extraction of the inactive ranges\<close>

text \<open>
  One round of the loop of \<open>computeInactiveRanges\<close>, on the state of the loop (the last line
  number, the last start character and the ranges so far) and the four values read from the
  array for the token.
\<close>

type_synonym loop_state = "jsval \<times> jsval \<times> Range list"

definition token_round ::
  "indices \<Rightarrow> loop_state \<Rightarrow> jsval \<Rightarrow> jsval \<Rightarrow> jsval \<Rightarrow> jsval \<Rightarrow> loop_state" where
  "token_round g s deltaLine deltaCharacter len tokenTypeIndex =
     (case s of (lastLineNumber, lastStartCharacter, inactiveRanges) \<Rightarrow>
        (let lineNumber = js_add lastLineNumber deltaLine;
             startCharacter =
               (if js_is_zero deltaLine then js_add lastStartCharacter deltaCharacter
                else deltaCharacter);
             inactiveRanges' =
               (if js_loose_eq tokenTypeIndex (var_val (inactiveCodeTokenTypeIndex g))
                then inactiveRanges @
                     [new_Range (lineNumber, startCharacter)
                        (lineNumber, js_add startCharacter len)]
                else inactiveRanges)
         in (lineNumber, startCharacter, inactiveRanges')))"

text \<open>
  The loop. \<open>tokenCount\<close> is the quotient \<open>data.length / 5\<close> of two numbers, not rounded, so
  \<open>tokenIndex < tokenCount\<close> is \<open>5 * tokenIndex < data.length\<close>. The function returns the state
  the loop ends in.
\<close>

function computeInactiveRanges_loop ::
  "indices \<Rightarrow> u32 list \<Rightarrow> nat \<Rightarrow> loop_state \<Rightarrow> loop_state" where
  "computeInactiveRanges_loop g d tokenIndex s =
     (if 5 * tokenIndex < length d then
        (let offset = int (5 * tokenIndex);
             deltaLine = to_jsval (rd d offset);
             deltaCharacter = to_jsval (rd d (offset + 1));
             len = to_jsval (rd d (offset + 2));
             tokenTypeIndex = to_jsval (rd d (offset + 3))
         in computeInactiveRanges_loop g d (tokenIndex + 1)
              (token_round g s deltaLine deltaCharacter len tokenTypeIndex))
      else s)"
  by pat_completeness auto
termination
  by (relation "measure (\<lambda>(g, d, tokenIndex, s). length d - 5 * tokenIndex)") auto

text \<open>\<open>computeInactiveRanges\<close> starts the loop at \<open>(0, 0)\<close> with no range and returns the ranges.\<close>

definition computeInactiveRanges :: "indices \<Rightarrow> heap \<Rightarrow> SemanticTokens \<Rightarrow> Range list" where
  "computeInactiveRanges g h tokens =
     snd (snd (computeInactiveRanges_loop g (arr h (data tokens)) 0 (Num 0, Num 0, [])))"

subsection \<open>Replacing the token type of inactive code\<close>

text \<open>The loop of \<open>replaceInactiveRanges\<close>, on the contents of the new array.\<close>

function replaceInactiveRanges_loop :: "indices \<Rightarrow> u32 list \<Rightarrow> nat \<Rightarrow> u32 list" where
  "replaceInactiveRanges_loop g d tokenIndex =
     (if 5 * tokenIndex < length d then
        (let offset = int (5 * tokenIndex);
             d' =
               (if js_loose_eq (to_jsval (rd d (offset + 3)))
                     (var_val (inactiveCodeTokenTypeIndex g))
                then wr d (offset + 3) (var_u32 (inactiveCodeTokenTypeReplaceIndex g))
                else d)
         in replaceInactiveRanges_loop g d' (tokenIndex + 1))
      else d)"
  by pat_completeness auto
termination
  by (relation "measure (\<lambda>(g, d, tokenIndex). length d - 5 * tokenIndex)")
     (auto simp: wr_def)

text \<open>
  \<open>replaceInactiveRanges\<close> creates an array of the length of \<open>tokens.data\<close>, fills it with
  the contents of \<open>tokens.data\<close> (\<open>data.set\<close>), runs the loop on it and returns it.
\<close>

definition replaceInactiveRanges :: "indices \<Rightarrow> heap \<Rightarrow> SemanticTokens \<Rightarrow> heap \<times> SemanticTokens" where
  "replaceInactiveRanges g h tokens =
     (let d = arr h (data tokens);
          (h', a) = alloc h (replaceInactiveRanges_loop g d 0)
      in (h', \<lparr>resultId = resultId tokens, data = a\<rparr>))"

text \<open>What an array element holds after \<open>inactiveCodeTokenTypeReplaceIndex\<close> is assigned to it.\<close>

definition replacement :: "indices \<Rightarrow> u32" where
  "replacement g = (case inactiveCodeTokenTypeReplaceIndex g of None \<Rightarrow> 0 | Some r \<Rightarrow> of_nat r)"

subsection \<open>Copying between arrays\<close>

function copy_loop :: "u32 list \<Rightarrow> int \<Rightarrow> u32 list \<Rightarrow> int \<Rightarrow> int \<Rightarrow> int \<Rightarrow> u32 list" where
  "copy_loop src srcOffset dest destOffset len i =
     (if i < len
      then copy_loop src srcOffset (wr dest (destOffset + i) (rd src (srcOffset + i)))
             destOffset len (i + 1)
      else dest)"
  by pat_completeness auto
termination
  by (relation "measure (\<lambda>(src, so, dest, dof, len, i). nat (len - i))") auto

definition copy :: "u32 list \<Rightarrow> int \<Rightarrow> u32 list \<Rightarrow> int \<Rightarrow> int \<Rightarrow> u32 list" where
  "copy src srcOffset dest destOffset len = copy_loop src srcOffset dest destOffset len 0"

subsection \<open>Applying a delta\<close>

text \<open>The inserted data of an edit, and \<open>edit.data ? edit.data.length : 0\<close>.\<close>

definition inserted :: "SemanticTokensEdit \<Rightarrow> u32 list" where
  "inserted e = (case edit_data e of None \<Rightarrow> [] | Some d \<Rightarrow> d)"

fun deltaLength :: "SemanticTokensEdit list \<Rightarrow> int" where
  "deltaLength [] = 0"
| "deltaLength (e # es) =
     int (length (inserted e)) - int (deleteCount e) + deltaLength es"

text \<open>
  One round of the second loop of \<open>applyDelta\<close>, on the triple of the contents of
  \<open>destData\<close>, \<open>srcLastStart\<close> and \<open>destLastStart\<close>.
\<close>

definition applyDelta_step ::
  "u32 list \<Rightarrow> SemanticTokensEdit \<Rightarrow> u32 list \<times> int \<times> int \<Rightarrow> u32 list \<times> int \<times> int" where
  "applyDelta_step srcData edit s =
     (case s of (destData, srcLastStart, destLastStart) \<Rightarrow>
        (let copyCount = srcLastStart - (int (start edit) + int (deleteCount edit));
             (destData1, destLastStart1) =
               (if copyCount \<noteq> 0
                then (copy srcData (srcLastStart - copyCount) destData
                        (destLastStart - copyCount) copyCount,
                      destLastStart - copyCount)
                else (destData, destLastStart));
             (destData2, destLastStart2) =
               (case edit_data edit of
                  None \<Rightarrow> (destData1, destLastStart1)
                | Some ed \<Rightarrow>
                    (copy ed 0 destData1 (destLastStart1 - int (length ed)) (int (length ed)),
                     destLastStart1 - int (length ed)))
         in (destData2, int (start edit), destLastStart2)))"

text \<open>
  The loop runs from the last edit to the first: the list it is given is the edits reversed.
\<close>

fun applyDelta_loop ::
  "u32 list \<Rightarrow> SemanticTokensEdit list \<Rightarrow> u32 list \<times> int \<times> int \<Rightarrow> u32 list \<times> int \<times> int" where
  "applyDelta_loop srcData [] s = s"
| "applyDelta_loop srcData (edit # es) s = applyDelta_loop srcData es (applyDelta_step srcData edit s)"

text \<open>After the loop: the part of the source before the first edit is copied.\<close>

definition applyDelta_finish :: "u32 list \<Rightarrow> u32 list \<times> int \<times> int \<Rightarrow> u32 list" where
  "applyDelta_finish srcData s =
     (case s of (destData, srcLastStart, destLastStart) \<Rightarrow>
        if srcLastStart > 0 then copy srcData 0 destData 0 srcLastStart else destData)"

text \<open>The contents of the array that \<open>applyDelta\<close> returns.\<close>

definition applyDelta_data :: "u32 list \<Rightarrow> SemanticTokensEdit list \<Rightarrow> error + u32 list" where
  "applyDelta_data srcData es =
     (case new_Uint32Array (int (length srcData) + deltaLength es) of
        Inl err \<Rightarrow> Inl err
      | Inr destData \<Rightarrow>
          Inr (applyDelta_finish srcData
                 (applyDelta_loop srcData (rev es)
                    (destData, int (length srcData), int (length destData)))))"

definition applyDelta ::
  "heap \<Rightarrow> SemanticTokens \<Rightarrow> SemanticTokensEdits \<Rightarrow> error + heap \<times> SemanticTokens" where
  "applyDelta h prev delta =
     (case applyDelta_data (arr h (data prev)) (edits delta) of
        Inl err \<Rightarrow> Inl err
      | Inr destData \<Rightarrow>
          (let (h', a) = alloc h destData
           in Inr (h', \<lparr>resultId = edits_resultId delta, data = a\<rparr>)))"

subsection \<open>The per-document store\<close>

type_synonym document = nat
type_synonym editor = nat

text \<open>
  The two weak maps of the module and, of the host, the decorations set on each editor.
  The visible editors are the host's: a list of editors with the document each shows.
\<close>

record store =
  lastTokens :: "document \<Rightarrow> SemanticTokens option"
  lastInactiveRanges :: "document \<Rightarrow> Range list option"
  decorations :: "editor \<Rightarrow> Range list option"

text \<open>The store when the module is loaded: both weak maps are new, no editor is decorated.\<close>

definition empty_store :: store where
  "empty_store =
     \<lparr>lastTokens = Map.empty, lastInactiveRanges = Map.empty, decorations = Map.empty\<rparr>"

fun setDecorations_visible ::
  "(editor \<times> document) list \<Rightarrow> document \<Rightarrow> Range list \<Rightarrow>
   (editor \<Rightarrow> Range list option) \<Rightarrow> (editor \<Rightarrow> Range list option)" where
  "setDecorations_visible [] doc rs dec = dec"
| "setDecorations_visible ((e, d) # eds) doc rs dec =
     setDecorations_visible eds doc rs (if d = doc then dec(e \<mapsto> rs) else dec)"

definition provideDocumentSemanticTokens ::
  "indices \<Rightarrow> (editor \<times> document) list \<Rightarrow> heap \<Rightarrow> store \<Rightarrow> document \<Rightarrow> SemanticTokens \<Rightarrow>
   SemanticTokens \<times> store \<times> heap" where
  "provideDocumentSemanticTokens g visibleTextEditors h st doc tokens =
     (let st1 = st\<lparr>lastTokens := (lastTokens st)(doc \<mapsto> tokens)\<rparr>;
          inactiveRanges = computeInactiveRanges g h tokens;
          st2 = st1\<lparr>lastInactiveRanges := (lastInactiveRanges st1)(doc \<mapsto> inactiveRanges)\<rparr>;
          st3 = st2\<lparr>decorations :=
                  setDecorations_visible visibleTextEditors doc inactiveRanges (decorations st2)\<rparr>;
          (h', out) = replaceInactiveRanges g h tokens
      in (out, st3, h'))"

text \<open>
  \<open>isSemanticTokens\<close> tells the two kinds of payload apart (the full one has \<open>data\<close>);
  here that is the case distinction on the payload.
\<close>

definition provideDocumentSemanticTokensEdits ::
  "indices \<Rightarrow> (editor \<times> document) list \<Rightarrow> heap \<Rightarrow> store \<Rightarrow> document \<Rightarrow> string \<Rightarrow> payload \<Rightarrow>
   error + payload \<times> store \<times> heap" where
  "provideDocumentSemanticTokensEdits g visibleTextEditors h st doc previousResultId tokens =
     (case tokens of
        Full t \<Rightarrow>
          (case provideDocumentSemanticTokens g visibleTextEditors h st doc t of
             (out, st', h') \<Rightarrow> Inr (Full out, st', h'))
      | Delta delta \<Rightarrow>
          (case lastTokens st doc of
             None \<Rightarrow> Inr (Delta delta, st, h)
           | Some previousTokens \<Rightarrow>
               if resultId previousTokens \<noteq> Some previousResultId
               then Inr (Delta delta, st, h)
               else (case applyDelta h previousTokens delta of
                       Inl err \<Rightarrow> Inl err
                     | Inr (h1, t) \<Rightarrow>
                         (case provideDocumentSemanticTokens g visibleTextEditors h1 st doc t of
                            (out, st', h') \<Rightarrow> Inr (Full out, st', h')))))"

section \<open>The specification's notions\<close>

text \<open>
  The definitions of this section follow the words of the specification, not the code; the
  theorems compare the code with them.
\<close>

subsection \<open>Records and their absolute positions\<close>

text \<open>
  The flat stream cut into records \<open>[deltaLine, deltaStartColumn, length, typeCode,
  modifierBits]\<close>; what is left after the last whole record is dropped.
\<close>

record RelativeRecord =
  deltaLine :: nat
  deltaStartColumn :: nat
  rlength :: nat
  rtypeCode :: nat
  rmodifierBits :: nat

fun spec_records :: "u32 list \<Rightarrow> RelativeRecord list" where
  "spec_records (a # b # c # t # m # rest) =
     \<lparr>deltaLine = unat a, deltaStartColumn = unat b, rlength = unat c, rtypeCode = unat t,
      rmodifierBits = unat m\<rparr> # spec_records rest"
| "spec_records _ = []"

record AbsoluteRecord =
  absLine :: nat
  absColumn :: nat
  alength :: nat
  typeCode :: nat
  modifierBits :: nat

text \<open>
  Decoding with the state \<open>(lastLine, lastStartColumn)\<close>: the line is the last line plus the
  delta, the column is relative to the last column only on the same line.
\<close>

fun spec_decode_from :: "nat \<Rightarrow> nat \<Rightarrow> RelativeRecord list \<Rightarrow> AbsoluteRecord list" where
  "spec_decode_from lastLine lastStartColumn [] = []"
| "spec_decode_from lastLine lastStartColumn (r # rs) =
     (let line = lastLine + deltaLine r;
          col = (if deltaLine r = 0 then lastStartColumn + deltaStartColumn r
                 else deltaStartColumn r)
      in \<lparr>absLine = line, absColumn = col, alength = rlength r, typeCode = rtypeCode r,
          modifierBits = rmodifierBits r\<rparr> # spec_decode_from line col rs)"

definition spec_decode :: "u32 list \<Rightarrow> AbsoluteRecord list" where
  "spec_decode buffer = spec_decode_from 0 0 (spec_records buffer)"

text \<open>The range of one record, and extraction: the ranges of the records of the sentinel type.\<close>

definition spec_range :: "AbsoluteRecord \<Rightarrow> Range" where
  "spec_range r =
     \<lparr>startLine = Num (absLine r), startCharacter = Num (absColumn r),
      endLine = Num (absLine r), endCharacter = Num (absColumn r + alength r)\<rparr>"

definition spec_extract :: "AbsoluteRecord list \<Rightarrow> nat \<Rightarrow> Range list" where
  "spec_extract recs sentinel = map spec_range (filter (\<lambda>r. typeCode r = sentinel) recs)"

text \<open>The order of positions, line first, and the order of ranges by their start.\<close>

definition pos_le :: "nat \<times> nat \<Rightarrow> nat \<times> nat \<Rightarrow> bool" where
  "pos_le p q = (fst p < fst q \<or> (fst p = fst q \<and> snd p \<le> snd q))"

fun range_start :: "Range \<Rightarrow> (nat \<times> nat) option" where
  "range_start r =
     (case (startLine r, startCharacter r) of
        (Num l, Num c) \<Rightarrow> Some (l, c)
      | _ \<Rightarrow> None)"

definition range_le :: "Range \<Rightarrow> Range \<Rightarrow> bool" where
  "range_le r1 r2 =
     (case (range_start r1, range_start r2) of
        (Some p, Some q) \<Rightarrow> pos_le p q
      | _ \<Rightarrow> False)"

subsection \<open>Splicing edits into a buffer\<close>

text \<open>
  The contract on an edit list: from position \<open>pos\<close> on, the edits come by ascending start,
  each ends before the next starts, and the last ends inside the buffer of length \<open>n\<close>. The
  code's loop takes such a list from its last edit to its first, by descending start.
\<close>

fun edits_ok :: "nat \<Rightarrow> SemanticTokensEdit list \<Rightarrow> nat \<Rightarrow> bool" where
  "edits_ok pos [] n = (pos \<le> n)"
| "edits_ok pos (e # es) n = (pos \<le> start e \<and> edits_ok (start e + deleteCount e) es n)"

text \<open>
  The buffer from \<open>pos\<close> on with each edit applied: the integers before the edit's start are
  kept, \<open>deleteCount\<close> integers at its start are removed and the inserted data takes their
  place.
\<close>

fun spec_spliced :: "u32 list \<Rightarrow> nat \<Rightarrow> SemanticTokensEdit list \<Rightarrow> u32 list" where
  "spec_spliced buffer pos [] = drop pos buffer"
| "spec_spliced buffer pos (e # es) =
     take (start e - pos) (drop pos buffer) @ inserted e
       @ spec_spliced buffer (start e + deleteCount e) es"

section \<open>Setup for the proofs\<close>

text \<open>The equations of the loops are unfolded one round at a time, by hand.\<close>

declare double_exponent.simps [simp del]
declare initialize_loop.simps [simp del]
declare computeInactiveRanges_loop.simps [simp del]
declare replaceInactiveRanges_loop.simps [simp del]
declare copy_loop.simps [simp del]

section \<open>Arrays and values\<close>

lemma loose_eq_Num_var [simp]: "js_loose_eq (Num a) (var_val v) = (v = Some a)"
  by (cases v) (auto simp: var_val_def)

lemma loose_eq_Undefined_var [simp]: "js_loose_eq Undefined (var_val v) = (v = None)"
  by (cases v) (auto simp: var_val_def)

lemma rd_nat [simp]: "rd xs (int k) = (if k < length xs then Some (xs ! k) else None)"
  by (simp add: rd_def)

lemma length_wr [simp]: "length (wr xs i v) = length xs"
  by (simp add: wr_def)

lemma wr_nat: "wr xs (int k) v = (if k < length xs then xs[k := (case v of None \<Rightarrow> 0 | Some w \<Rightarrow> w)] else xs)"
  by (simp add: wr_def)

lemma wr_var_u32: "wr xs (int k) (var_u32 (inactiveCodeTokenTypeReplaceIndex g)) = (if k < length xs then xs[k := replacement g] else xs)"
  by (simp add: wr_def var_u32_def replacement_def split: option.splits)

lemma arr_alloc_old: "a < length h \<Longrightarrow> arr (h @ [xs]) a = arr h a"
  by (simp add: arr_def nth_append)

lemma arr_alloc_new: "arr (h @ [xs]) (length h) = xs"
  by (simp add: arr_def)

section \<open>The token type indices after \<open>initialize\<close>\<close>

lemma initialize_loop_none:
  "\<forall>j. i \<le> j \<and> j < length tts \<longrightarrow> tts ! j \<noteq> ''comment'' \<Longrightarrow> initialize_loop tts i idx = idx"
proof (induction tts i idx rule: initialize_loop.induct)
  case (1 tts i idx)
  show ?case
  proof (cases "i < length tts")
    case True
    have ne: "tts ! i \<noteq> ''comment''" using "1.prems" True by simp
    have "initialize_loop tts (i + 1) idx = idx"
      using "1.IH" [OF True] "1.prems" ne by simp
    then show ?thesis using True ne by (subst initialize_loop.simps) simp
  next
    case False
    then show ?thesis by (subst initialize_loop.simps) simp
  qed
qed

lemma initialize_loop_some:
  "i \<le> k \<Longrightarrow> k < length tts \<Longrightarrow> tts ! k = ''comment'' \<Longrightarrow>
   \<forall>j. k < j \<and> j < length tts \<longrightarrow> tts ! j \<noteq> ''comment'' \<Longrightarrow>
   initialize_loop tts i idx = Some k"
proof (induction tts i idx rule: initialize_loop.induct)
  case (1 tts i idx)
  have lt: "i < length tts" using "1.prems" by simp
  show ?case
  proof (cases "i = k")
    case True
    have "initialize_loop tts (k + 1) (Some k) = Some k"
      using "1.prems"(4) by (intro initialize_loop_none) simp
    then show ?thesis using True lt "1.prems"(3) by (subst initialize_loop.simps) simp
  next
    case False
    then have "i + 1 \<le> k" using "1.prems"(1) by simp
    from "1.IH" [OF lt this "1.prems"(2,3,4)]
    show ?thesis using lt by (subst initialize_loop.simps) simp
  qed
qed

lemma initialize_loop_Some:
  "initialize_loop tts i idx = Some s \<Longrightarrow> idx = Some s \<or> (i \<le> s \<and> s < length tts)"
proof (induction tts i idx rule: initialize_loop.induct)
  case (1 tts i idx)
  show ?case
  proof (cases "i < length tts")
    case True
    have "initialize_loop tts (i + 1) (if tts ! i = ''comment'' then Some i else idx) = Some s"
      using "1.prems" True by (subst (asm) initialize_loop.simps) simp
    from "1.IH" [OF True this] True show ?thesis by (auto split: if_splits)
  next
    case False
    then show ?thesis using "1.prems" by (subst (asm) initialize_loop.simps) simp
  qed
qed

lemma last_occurrence:
  "x \<in> set xs \<Longrightarrow> \<exists>k. k < length xs \<and> xs ! k = x \<and> (\<forall>j. k < j \<and> j < length xs \<longrightarrow> xs ! j \<noteq> x)"
proof (induction xs rule: rev_induct)
  case Nil
  then show ?case by simp
next
  case (snoc y ys)
  show ?case
  proof (cases "y = x")
    case True
    then show ?thesis by (intro exI [of _ "length ys"]) auto
  next
    case False
    then have "x \<in> set ys" using snoc.prems by simp
    from snoc.IH [OF this] obtain k where
      k: "k < length ys" "ys ! k = x" "\<forall>j. k < j \<and> j < length ys \<longrightarrow> ys ! j \<noteq> x" by blast
    show ?thesis
    proof (intro exI [of _ k] conjI allI impI)
      fix j assume "k < j \<and> j < length (ys @ [y])"
      then show "(ys @ [y]) ! j \<noteq> x" using k False by (cases "j < length ys") (auto simp: nth_append)
    qed (use k in \<open>auto simp: nth_append\<close>)
  qed
qed

text \<open>
  C10. When the server has a semantic tokens provider, \<open>initialize\<close> sets the replace index
  to the length of the legend, whether or not \<open>'comment'\<close> is in the legend. When
  \<open>'comment'\<close> is in the legend (once or several times), the recorded index is that of its last
  occurrence; when it is not, the recorded index is left as it was.
\<close>

theorem initialize_last_comment:
  assumes "semanticTokensProvider capabilities = Some provider"
  shows "inactiveCodeTokenTypeReplaceIndex (initialize capabilities g)
           = Some (length (tokenTypes (legend provider)))
       \<and> (''comment'' \<in> set (tokenTypes (legend provider)) \<longrightarrow>
            (\<exists>k. inactiveCodeTokenTypeIndex (initialize capabilities g) = Some k
               \<and> k < length (tokenTypes (legend provider))
               \<and> tokenTypes (legend provider) ! k = ''comment''
               \<and> (\<forall>j. k < j \<and> j < length (tokenTypes (legend provider))
                      \<longrightarrow> tokenTypes (legend provider) ! j \<noteq> ''comment'')))
       \<and> (''comment'' \<notin> set (tokenTypes (legend provider)) \<longrightarrow>
            inactiveCodeTokenTypeIndex (initialize capabilities g) = inactiveCodeTokenTypeIndex g)"
proof (intro conjI impI)
  let ?tts = "tokenTypes (legend provider)"
  show "inactiveCodeTokenTypeReplaceIndex (initialize capabilities g) = Some (length ?tts)"
    using assms by (simp add: initialize_def Let_def)
  {
    assume "''comment'' \<in> set ?tts"
    from last_occurrence [OF this] obtain k where
      k: "k < length ?tts" "?tts ! k = ''comment''"
         "\<forall>j. k < j \<and> j < length ?tts \<longrightarrow> ?tts ! j \<noteq> ''comment''" by blast
    have "initialize_loop ?tts 0 (inactiveCodeTokenTypeIndex g) = Some k"
      using k by (intro initialize_loop_some) simp_all
    then show "\<exists>k. inactiveCodeTokenTypeIndex (initialize capabilities g) = Some k
               \<and> k < length ?tts \<and> ?tts ! k = ''comment''
               \<and> (\<forall>j. k < j \<and> j < length ?tts \<longrightarrow> ?tts ! j \<noteq> ''comment'')"
      using assms k by (simp add: initialize_def Let_def)
  }
  {
    assume "''comment'' \<notin> set ?tts"
    then have "initialize_loop ?tts 0 (inactiveCodeTokenTypeIndex g) = inactiveCodeTokenTypeIndex g"
      by (intro initialize_loop_none) (metis nth_mem)
    then show "inactiveCodeTokenTypeIndex (initialize capabilities g) = inactiveCodeTokenTypeIndex g"
      using assms by (simp add: initialize_def Let_def)
  }
qed

theorem initialize_last_comment_witness:
  "semanticTokensProvider \<lparr>semanticTokensProvider =
       Some \<lparr>legend = \<lparr>tokenTypes = [''comment'', ''keyword'', ''comment'']\<rparr>\<rparr>\<rparr>
     = Some \<lparr>legend = \<lparr>tokenTypes = [''comment'', ''keyword'', ''comment'']\<rparr>\<rparr>
   \<and> ''comment'' \<in> set [''comment'', ''keyword'', ''comment'']
   \<and> initialize \<lparr>semanticTokensProvider =
       Some \<lparr>legend = \<lparr>tokenTypes = [''comment'', ''keyword'', ''comment'']\<rparr>\<rparr>\<rparr> initial_indices
     = \<lparr>inactiveCodeTokenTypeIndex = Some 2, inactiveCodeTokenTypeReplaceIndex = Some 3\<rparr>"
proof -
  have run: "initialize \<lparr>semanticTokensProvider =
       Some \<lparr>legend = \<lparr>tokenTypes = [''comment'', ''keyword'', ''comment'']\<rparr>\<rparr>\<rparr> initial_indices
     = \<lparr>inactiveCodeTokenTypeIndex = Some 2, inactiveCodeTokenTypeReplaceIndex = Some 3\<rparr>"
    by code_simp
  show ?thesis
    using initialize_last_comment
      [of "\<lparr>semanticTokensProvider =
         Some \<lparr>legend = \<lparr>tokenTypes = [''comment'', ''keyword'', ''comment'']\<rparr>\<rparr>\<rparr>"
          "\<lparr>legend = \<lparr>tokenTypes = [''comment'', ''keyword'', ''comment'']\<rparr>\<rparr>" initial_indices]
      run
    by simp
qed

section \<open>Replacing the token type\<close>

lemma length_replace_loop [simp]: "length (replaceInactiveRanges_loop g d t) = length d"
proof (induction g d t rule: replaceInactiveRanges_loop.induct)
  case (1 g d t)
  show ?case
  proof (cases "5 * t < length d")
    case True
    define d' where "d' =
       (if js_loose_eq (to_jsval (rd d (int (5 * t) + 3))) (var_val (inactiveCodeTokenTypeIndex g))
        then wr d (int (5 * t) + 3) (var_u32 (inactiveCodeTokenTypeReplaceIndex g)) else d)"
    have unfold: "replaceInactiveRanges_loop g d t = replaceInactiveRanges_loop g d' (t + 1)"
      using True by (subst replaceInactiveRanges_loop.simps) (simp add: Let_def d'_def)
    have "length (replaceInactiveRanges_loop g d' (t + 1)) = length d'"
      using "1.IH" [OF True refl, of d'] by (simp add: d'_def)
    then show ?thesis unfolding unfold by (simp add: d'_def)
  next
    case False
    then show ?thesis by (subst replaceInactiveRanges_loop.simps) simp
  qed
qed

lemma mod5_3_window: "k mod 5 = 3 \<Longrightarrow> 5 * t \<le> k \<Longrightarrow> k \<noteq> 5 * t + 3 \<Longrightarrow> 5 * (t + 1) \<le> (k::nat)"
  by presburger

lemma nth_replace_loop:
  "k < length d \<Longrightarrow>
   replaceInactiveRanges_loop g d t ! k =
     (if k mod 5 = 3 \<and> 5 * t \<le> k \<and> inactiveCodeTokenTypeIndex g = Some (unat (d ! k))
      then replacement g else d ! k)"
proof (induction g d t rule: replaceInactiveRanges_loop.induct)
  case (1 g d t)
  show ?case
  proof (cases "5 * t < length d")
    case False
    then show ?thesis using "1.prems" by (subst replaceInactiveRanges_loop.simps) simp
  next
    case True
    define d' where "d' =
       (if js_loose_eq (to_jsval (rd d (int (5 * t) + 3))) (var_val (inactiveCodeTokenTypeIndex g))
        then wr d (int (5 * t) + 3) (var_u32 (inactiveCodeTokenTypeReplaceIndex g)) else d)"
    have unfold: "replaceInactiveRanges_loop g d t = replaceInactiveRanges_loop g d' (t + 1)"
      using True by (subst replaceInactiveRanges_loop.simps) (simp add: Let_def d'_def)
    have len: "length d' = length d" by (simp add: d'_def)
    have ih: "replaceInactiveRanges_loop g d' (t + 1) ! k =
       (if k mod 5 = 3 \<and> 5 * (t + 1) \<le> k \<and> inactiveCodeTokenTypeIndex g = Some (unat (d' ! k))
        then replacement g else d' ! k)"
      using "1.IH" [OF True refl, of d'] "1.prems" len by (simp add: d'_def)
    define j where "j = 5 * t + 3"
    have off: "int (5 * t) + 3 = int j" by (simp add: j_def)
    have d'_eq: "d' = (if j < length d \<and> inactiveCodeTokenTypeIndex g = Some (unat (d ! j))
                       then d[j := replacement g] else d)"
      unfolding d'_def off by (simp add: to_jsval_def wr_var_u32)
    show ?thesis
    proof (cases "k = j")
      case True
      have "d' ! k = (if inactiveCodeTokenTypeIndex g = Some (unat (d ! k)) then replacement g else d ! k)"
        using "1.prems" True by (simp add: d'_eq)
      moreover have "k mod 5 = 3" "5 * t \<le> k" "\<not> 5 * (t + 1) \<le> k" using True by (simp_all add: j_def)
      ultimately show ?thesis unfolding unfold ih by simp
    next
      case False
      have same: "d' ! k = d ! k"
        using False "1.prems" by (simp add: d'_eq)
      have "(k mod 5 = 3 \<and> 5 * (t + 1) \<le> k) = (k mod 5 = 3 \<and> 5 * t \<le> k)"
        using False mod5_3_window [of k t] by (auto simp: j_def)
      then show ?thesis unfolding unfold ih same by auto
    qed
  qed
qed

lemma replaceInactiveRanges_eq:
  "replaceInactiveRanges g h tokens =
     (h @ [replaceInactiveRanges_loop g (arr h (data tokens)) 0],
      \<lparr>resultId = resultId tokens, data = length h\<rparr>)"
  by (simp add: replaceInactiveRanges_def alloc_def Let_def)

text \<open>
  C3. \<open>replaceInactiveRanges\<close> returns a new array: its address is not an address of the heap
  it was given, and every array of that heap, the caller's among them, has the contents it had.
  The new array has the length of the caller's; in it, the token type of a record (the element
  at offset 3 of the record) is the replacement exactly when the caller's token type equals
  \<open>inactiveCodeTokenTypeIndex\<close>, and every other element (delta line, delta start character,
  length, modifiers, and the token type of every other record) is the caller's.
\<close>

theorem replaceInactiveRanges_frame:
  assumes "replaceInactiveRanges g h tokens = (h', out)"
  shows "\<not> data out < length h
       \<and> (\<forall>a. a < length h \<longrightarrow> arr h' a = arr h a)
       \<and> (data tokens < length h \<longrightarrow>
            data out \<noteq> data tokens \<and> arr h' (data tokens) = arr h (data tokens))
       \<and> resultId out = resultId tokens
       \<and> length (arr h' (data out)) = length (arr h (data tokens))
       \<and> (\<forall>i f. f < 5 \<and> 5 * i + f < length (arr h (data tokens)) \<longrightarrow>
            arr h' (data out) ! (5 * i + f) =
              (if f = 3 \<and> inactiveCodeTokenTypeIndex g
                             = Some (unat (arr h (data tokens) ! (5 * i + 3)))
               then replacement g
               else arr h (data tokens) ! (5 * i + f)))"
proof -
  let ?src = "arr h (data tokens)"
  have h': "h' = h @ [replaceInactiveRanges_loop g ?src 0]"
    and out: "out = \<lparr>resultId = resultId tokens, data = length h\<rparr>"
    using assms by (simp_all add: replaceInactiveRanges_eq)
  have new: "arr h' (data out) = replaceInactiveRanges_loop g ?src 0"
    by (simp add: h' out arr_alloc_new)
  have old: "\<forall>a. a < length h \<longrightarrow> arr h' a = arr h a"
    by (simp add: h' arr_alloc_old)
  have elems: "arr h' (data out) ! (5 * i + f) =
              (if f = 3 \<and> inactiveCodeTokenTypeIndex g = Some (unat (?src ! (5 * i + 3)))
               then replacement g else ?src ! (5 * i + f))"
    if "f < 5" "5 * i + f < length ?src" for i f
  proof -
    have m: "(5 * i + f) mod 5 = f" using that(1) by simp
    have "replaceInactiveRanges_loop g ?src 0 ! (5 * i + f) =
       (if f = 3 \<and> inactiveCodeTokenTypeIndex g = Some (unat (?src ! (5 * i + f)))
        then replacement g else ?src ! (5 * i + f))"
      using that(2) by (simp only: nth_replace_loop m) simp
    then show ?thesis unfolding new by auto
  qed
  show ?thesis using old elems by (simp add: new) (simp add: out)
qed

theorem replaceInactiveRanges_frame_witness:
  "replaceInactiveRanges
     \<lparr>inactiveCodeTokenTypeIndex = Some 0, inactiveCodeTokenTypeReplaceIndex = Some 2\<rparr>
     [[2, 4, 6, 0, 0, 0, 3, 2, 1, 0]] \<lparr>resultId = Some ''r1'', data = 0\<rparr>
   = ([[2, 4, 6, 0, 0, 0, 3, 2, 1, 0], [2, 4, 6, 2, 0, 0, 3, 2, 1, 0]],
      \<lparr>resultId = Some ''r1'', data = 1\<rparr>)
   \<and> arr [[2, 4, 6, 0, 0, 0, 3, 2, 1, 0], [2, 4, 6, 2, 0, 0, 3, 2, 1, 0]] 0
       = arr [[2, 4, 6, 0, 0, 0, 3, 2, 1, 0]] 0
   \<and> (1::nat) \<noteq> 0"
proof -
  have run: "replaceInactiveRanges
     \<lparr>inactiveCodeTokenTypeIndex = Some 0, inactiveCodeTokenTypeReplaceIndex = Some 2\<rparr>
     [[2, 4, 6, 0, 0, 0, 3, 2, 1, 0]] \<lparr>resultId = Some ''r1'', data = 0\<rparr>
   = ([[2, 4, 6, 0, 0, 0, 3, 2, 1, 0], [2, 4, 6, 2, 0, 0, 3, 2, 1, 0]],
      \<lparr>resultId = Some ''r1'', data = 1\<rparr>)"
    by code_simp
  from replaceInactiveRanges_frame [OF run] have
    "data \<lparr>resultId = Some ''r1'', data = 0\<rparr> < length [[2, 4, 6, 0, 0, 0, 3, 2, 1, 0 :: u32]] \<longrightarrow>
       data \<lparr>resultId = Some ''r1'', data = 1\<rparr> \<noteq> data \<lparr>resultId = Some ''r1'', data = 0\<rparr>
       \<and> arr [[2, 4, 6, 0, 0, 0, 3, 2, 1, 0], [2, 4, 6, 2, 0, 0, 3, 2, 1, 0]]
             (data \<lparr>resultId = Some ''r1'', data = 0\<rparr>)
         = arr [[2, 4, 6, 0, 0, 0, 3, 2, 1, 0]] (data \<lparr>resultId = Some ''r1'', data = 0\<rparr>)"
    by blast
  then show ?thesis using run by simp
qed

lemma replace_loop_idem:
  "replaceInactiveRanges_loop g (replaceInactiveRanges_loop g d 0) 0 = replaceInactiveRanges_loop g d 0"
proof (rule nth_equalityI)
  show "length (replaceInactiveRanges_loop g (replaceInactiveRanges_loop g d 0) 0)
      = length (replaceInactiveRanges_loop g d 0)" by simp
next
  fix k assume "k < length (replaceInactiveRanges_loop g (replaceInactiveRanges_loop g d 0) 0)"
  then have k: "k < length d" by simp
  then show "replaceInactiveRanges_loop g (replaceInactiveRanges_loop g d 0) 0 ! k
           = replaceInactiveRanges_loop g d 0 ! k"
    by (simp add: nth_replace_loop)
qed


text \<open>
  The two indices after one \<open>initialize\<close>. Let it run on variables whose
  \<open>inactiveCodeTokenTypeIndex\<close> has not been set before, or with a legend that contains
  \<open>'comment'\<close>. If the index is defined afterwards, then the server has a semantic tokens
  provider, the index is below the length of its legend and the replace index is that length:
  the two differ. And \<open>replaceInactiveRanges\<close> is idempotent on contents, for every pair of
  indices and every buffer: applied to its own result it returns an array with the same
  contents.
\<close>

theorem indices_distinct_replace_idempotent:
  assumes "inactiveCodeTokenTypeIndex g0 = None
         \<or> (\<exists>provider. semanticTokensProvider capabilities = Some provider
               \<and> ''comment'' \<in> set (tokenTypes (legend provider)))"
  shows "(\<forall>s. inactiveCodeTokenTypeIndex (initialize capabilities g0) = Some s \<longrightarrow>
            (\<exists>provider. semanticTokensProvider capabilities = Some provider
               \<and> s < length (tokenTypes (legend provider))
               \<and> inactiveCodeTokenTypeReplaceIndex (initialize capabilities g0)
                    = Some (length (tokenTypes (legend provider)))
               \<and> inactiveCodeTokenTypeReplaceIndex (initialize capabilities g0) \<noteq> Some s))
       \<and> (\<forall>g h tokens h1 out1 h2 out2.
            replaceInactiveRanges g h tokens = (h1, out1) \<longrightarrow>
            replaceInactiveRanges g h1 out1 = (h2, out2) \<longrightarrow>
            arr h2 (data out2) = arr h1 (data out1))"
proof (intro conjI allI impI)
  fix s assume s: "inactiveCodeTokenTypeIndex (initialize capabilities g0) = Some s"
  show "\<exists>provider. semanticTokensProvider capabilities = Some provider
               \<and> s < length (tokenTypes (legend provider))
               \<and> inactiveCodeTokenTypeReplaceIndex (initialize capabilities g0)
                    = Some (length (tokenTypes (legend provider)))
               \<and> inactiveCodeTokenTypeReplaceIndex (initialize capabilities g0) \<noteq> Some s"
  proof (cases "semanticTokensProvider capabilities")
    case None
    then show ?thesis using s assms by (auto simp: initialize_def)
  next
    case (Some provider)
    let ?tts = "tokenTypes (legend provider)"
    have run: "initialize_loop ?tts 0 (inactiveCodeTokenTypeIndex g0) = Some s"
      using s Some by (simp add: initialize_def Let_def)
    have "s < length ?tts"
    proof (cases "''comment'' \<in> set ?tts")
      case True
      from last_occurrence [OF this] obtain k where
        k: "k < length ?tts" "?tts ! k = ''comment''"
           "\<forall>j. k < j \<and> j < length ?tts \<longrightarrow> ?tts ! j \<noteq> ''comment''" by blast
      have "initialize_loop ?tts 0 (inactiveCodeTokenTypeIndex g0) = Some k"
        using k by (intro initialize_loop_some) simp_all
      then show ?thesis using run k(1) by simp
    next
      case False
      then have "inactiveCodeTokenTypeIndex g0 = None" using assms Some by auto
      then show ?thesis using initialize_loop_Some [OF run] by simp
    qed
    then show ?thesis using Some by (simp add: initialize_def Let_def)
  qed
next
  fix g h tokens h1 out1 h2 out2
  assume 1: "replaceInactiveRanges g h tokens = (h1, out1)"
    and 2: "replaceInactiveRanges g h1 out1 = (h2, out2)"
  have a1: "arr h1 (data out1) = replaceInactiveRanges_loop g (arr h (data tokens)) 0"
    using 1 by (auto simp: replaceInactiveRanges_eq arr_alloc_new)
  have a2: "arr h2 (data out2) = replaceInactiveRanges_loop g (arr h1 (data out1)) 0"
    using 2 by (auto simp: replaceInactiveRanges_eq arr_alloc_new)
  show "arr h2 (data out2) = arr h1 (data out1)"
    unfolding a2 unfolding a1 by (rule replace_loop_idem)
qed

theorem indices_distinct_replace_idempotent_witness:
  "inactiveCodeTokenTypeIndex initial_indices = None
   \<and> initialize \<lparr>semanticTokensProvider =
        Some \<lparr>legend = \<lparr>tokenTypes = [''comment'', ''keyword'']\<rparr>\<rparr>\<rparr> initial_indices
      = \<lparr>inactiveCodeTokenTypeIndex = Some 0, inactiveCodeTokenTypeReplaceIndex = Some 2\<rparr>
   \<and> replaceInactiveRanges
        \<lparr>inactiveCodeTokenTypeIndex = Some 0, inactiveCodeTokenTypeReplaceIndex = Some 2\<rparr>
        [[2, 4, 6, 0, 0]] \<lparr>resultId = None, data = 0\<rparr>
      = ([[2, 4, 6, 0, 0], [2, 4, 6, 2, 0]], \<lparr>resultId = None, data = 1\<rparr>)
   \<and> replaceInactiveRanges
        \<lparr>inactiveCodeTokenTypeIndex = Some 0, inactiveCodeTokenTypeReplaceIndex = Some 2\<rparr>
        [[2, 4, 6, 0, 0], [2, 4, 6, 2, 0]] \<lparr>resultId = None, data = 1\<rparr>
      = ([[2, 4, 6, 0, 0], [2, 4, 6, 2, 0], [2, 4, 6, 2, 0]], \<lparr>resultId = None, data = 2\<rparr>)
   \<and> arr [[2, 4, 6, 0, 0], [2, 4, 6, 2, 0], [2, 4, 6, 2, 0]] 2
      = arr [[2, 4, 6, 0, 0], [2, 4, 6, 2, 0]] 1"
proof -
  have none: "inactiveCodeTokenTypeIndex initial_indices = None"
    by (simp add: initial_indices_def)
  have init: "initialize \<lparr>semanticTokensProvider =
        Some \<lparr>legend = \<lparr>tokenTypes = [''comment'', ''keyword'']\<rparr>\<rparr>\<rparr> initial_indices
      = \<lparr>inactiveCodeTokenTypeIndex = Some 0, inactiveCodeTokenTypeReplaceIndex = Some 2\<rparr>"
    by code_simp
  have r1: "replaceInactiveRanges
        \<lparr>inactiveCodeTokenTypeIndex = Some 0, inactiveCodeTokenTypeReplaceIndex = Some 2\<rparr>
        [[2, 4, 6, 0, 0]] \<lparr>resultId = None, data = 0\<rparr>
      = ([[2, 4, 6, 0, 0], [2, 4, 6, 2, 0]], \<lparr>resultId = None, data = 1\<rparr>)"
    by code_simp
  have r2: "replaceInactiveRanges
        \<lparr>inactiveCodeTokenTypeIndex = Some 0, inactiveCodeTokenTypeReplaceIndex = Some 2\<rparr>
        [[2, 4, 6, 0, 0], [2, 4, 6, 2, 0]] \<lparr>resultId = None, data = 1\<rparr>
      = ([[2, 4, 6, 0, 0], [2, 4, 6, 2, 0], [2, 4, 6, 2, 0]], \<lparr>resultId = None, data = 2\<rparr>)"
    by code_simp
  from indices_distinct_replace_idempotent [OF disjI1, OF none] r1 r2
  have "arr [[2, 4, 6, 0, 0], [2, 4, 6, 2, 0], [2, 4, 6, 2, 0]]
          (data \<lparr>resultId = None, data = 2\<rparr>)
      = arr [[2, 4, 6, 0, 0], [2, 4, 6, 2, 0]] (data \<lparr>resultId = None, data = 1\<rparr>)"
    by blast
  then show ?thesis using none init r1 r2 by simp
qed

text \<open>
  C8. The code misses the claim when \<open>initialize\<close> runs a second time with a legend that does
  not contain \<open>'comment'\<close>: the index recorded the first time stays, while the replace index
  is set again. After the legends \<open>['a', 'b', 'comment']\<close> and then \<open>['x', 'y']\<close> both indices
  are 2.
\<close>

theorem stale_index_equals_replace_index:
  "initialize \<lparr>semanticTokensProvider = Some \<lparr>legend = \<lparr>tokenTypes = [''x'', ''y'']\<rparr>\<rparr>\<rparr>
     (initialize
        \<lparr>semanticTokensProvider = Some \<lparr>legend = \<lparr>tokenTypes = [''a'', ''b'', ''comment'']\<rparr>\<rparr>\<rparr>
        initial_indices)
   = \<lparr>inactiveCodeTokenTypeIndex = Some 2, inactiveCodeTokenTypeReplaceIndex = Some 2\<rparr>"
  by code_simp

section \<open>Extracting the inactive ranges\<close>

text \<open>Up to \<open>2 ^ 53\<close> every integer is a double, and a sum that stays there is exact.\<close>

lemma double_exponent_small: "n < 2 ^ 53 \<Longrightarrow> double_exponent n = 0"
  by (subst double_exponent.simps) simp

lemma double_exponent_step: "\<not> n < 2 ^ 53 \<Longrightarrow> double_exponent n = Suc (double_exponent (n div 2))"
  by (subst double_exponent.simps) simp

lemma round_double_exact: "n \<le> 2 ^ 53 \<Longrightarrow> round_double n = n"
proof (cases "n < 2 ^ 53")
  case True
  then show ?thesis by (simp add: round_double_def double_exponent_small)
next
  case False
  assume "n \<le> 2 ^ 53"
  with False have n: "n = 2 ^ 53" by simp
  have "double_exponent n = Suc 0"
    unfolding n by (simp add: double_exponent_step double_exponent_small)
  then show ?thesis unfolding round_double_def n by simp
qed

lemma js_add_exact: "a + b \<le> 2 ^ 53 \<Longrightarrow> js_add (Num a) (Num b) = Num (a + b)"
  by (simp add: round_double_exact)

lemma new_Range_ordered:
  "new_Range (Num l, Num c) (Num l, Num (c + n)) =
     \<lparr>startLine = Num l, startCharacter = Num c, endLine = Num l, endCharacter = Num (c + n)\<rparr>"
  by (simp add: new_Range_def isBefore_def)

lemma rd_append_left: "k < length xs \<Longrightarrow> rd (xs @ ys) (int k) = rd xs (int k)"
  by (simp add: nth_append)

lemma rd_append_right: "rd (xs @ ys) (int (length xs + k)) = rd ys (int k)"
proof -
  define j where "j = length xs + k"
  have a: "j < length (xs @ ys) \<longleftrightarrow> k < length ys" by (simp add: j_def)
  have b: "(xs @ ys) ! j = ys ! k" by (simp add: j_def)
  have "rd (xs @ ys) (int j) = rd ys (int k)"
    by (simp only: rd_nat a b)
  then show ?thesis by (simp only: j_def)
qed

lemma computeInactiveRanges_loop_stop:
  "\<not> 5 * t < length d \<Longrightarrow> computeInactiveRanges_loop g d t s = s"
  by (subst computeInactiveRanges_loop.simps) simp

lemma computeInactiveRanges_loop_step:
  assumes "5 * t < length d"
  shows "computeInactiveRanges_loop g d t s =
     computeInactiveRanges_loop g d (t + 1)
       (token_round g s (to_jsval (rd d (int (5 * t)))) (to_jsval (rd d (int (5 * t + 1))))
          (to_jsval (rd d (int (5 * t + 2)))) (to_jsval (rd d (int (5 * t + 3)))))"
proof -
  have offs: "int (5 * t) + 1 = int (5 * t + 1)" "int (5 * t) + 2 = int (5 * t + 2)"
    "int (5 * t) + 3 = int (5 * t + 3)" by simp_all
  show ?thesis
    apply (subst computeInactiveRanges_loop.simps)
    unfolding Let_def offs
    using assms by (simp only: if_True)
qed

lemma computeInactiveRanges_loop_shift:
  assumes "length d1 = 5 * t"
  shows "computeInactiveRanges_loop g (d1 @ d2) (t + u) s = computeInactiveRanges_loop g d2 u s"
proof (induction "length d2 - 5 * u" arbitrary: u s rule: less_induct)
  case less
  show ?case
  proof (cases "5 * u < length d2")
    case False
    then have "\<not> 5 * (t + u) < length (d1 @ d2)" using assms by simp
    then show ?thesis using False by (simp add: computeInactiveRanges_loop_stop)
  next
    case True
    then have lt: "5 * (t + u) < length (d1 @ d2)" using assms by simp
    have reads: "rd (d1 @ d2) (int (5 * (t + u) + k)) = rd d2 (int (5 * u + k))" for k
    proof -
      have idx: "5 * (t + u) + k = length d1 + (5 * u + k)" using assms by simp
      show ?thesis unfolding idx by (rule rd_append_right)
    qed
    have smaller: "length d2 - 5 * (u + 1) < length d2 - 5 * u" using True by simp
    have ih: "computeInactiveRanges_loop g (d1 @ d2) (t + (u + 1)) s'
            = computeInactiveRanges_loop g d2 (u + 1) s'" for s'
      by (rule less.hyps [OF smaller])
    have r0: "rd (d1 @ d2) (int (5 * (t + u))) = rd d2 (int (5 * u))"
      using reads [of 0] by simp
    show ?thesis
      unfolding computeInactiveRanges_loop_step [OF lt] computeInactiveRanges_loop_step [OF True]
        reads r0
      using ih by (simp add: add.assoc)
  qed
qed

lemma computeInactiveRanges_loop_append_from:
  assumes "length d1 mod 5 = 0"
  shows "5 * t \<le> length d1 \<Longrightarrow>
         computeInactiveRanges_loop g (d1 @ d2) t s
           = computeInactiveRanges_loop g d2 0 (computeInactiveRanges_loop g d1 t s)"
proof (induction "length d1 - 5 * t" arbitrary: t s rule: less_induct)
  case less
  show ?case
  proof (cases "5 * t < length d1")
    case False
    then have eq: "length d1 = 5 * t" using less.prems by simp
    show ?thesis
      using computeInactiveRanges_loop_shift [OF eq, of g d2 0 s] False
      by (simp add: computeInactiveRanges_loop_stop)
  next
    case True
    have whole: "5 * t + 4 < length d1" using assms True by presburger
    have lt: "5 * t < length (d1 @ d2)" using True by simp
    have r0: "rd (d1 @ d2) (int (5 * t)) = rd d1 (int (5 * t))"
      by (rule rd_append_left) (use whole in simp)
    have r1: "rd (d1 @ d2) (int (5 * t + 1)) = rd d1 (int (5 * t + 1))"
      by (rule rd_append_left) (use whole in simp)
    have r2: "rd (d1 @ d2) (int (5 * t + 2)) = rd d1 (int (5 * t + 2))"
      by (rule rd_append_left) (use whole in simp)
    have r3: "rd (d1 @ d2) (int (5 * t + 3)) = rd d1 (int (5 * t + 3))"
      by (rule rd_append_left) (use whole in simp)
    have smaller: "length d1 - 5 * (t + 1) < length d1 - 5 * t" using True by simp
    have le: "5 * (t + 1) \<le> length d1" using whole by simp
    show ?thesis
      unfolding computeInactiveRanges_loop_step [OF lt] computeInactiveRanges_loop_step [OF True]
        r0 r1 r2 r3
      by (rule less.hyps [OF smaller le])
  qed
qed

lemma computeInactiveRanges_loop_append:
  "length d1 mod 5 = 0 \<Longrightarrow>
   computeInactiveRanges_loop g (d1 @ d2) 0 s
     = computeInactiveRanges_loop g d2 0 (computeInactiveRanges_loop g d1 0 s)"
  using computeInactiveRanges_loop_append_from [of d1 0 g d2 s] by simp

lemma computeInactiveRanges_loop_single:
  assumes "0 < length d" and "length d \<le> 5"
  shows "computeInactiveRanges_loop g d 0 s =
     token_round g s (to_jsval (rd d 0)) (to_jsval (rd d 1)) (to_jsval (rd d 2))
       (to_jsval (rd d 3))"
proof -
  have "5 * 0 < length d" using assms(1) by simp
  from computeInactiveRanges_loop_step [OF this, of g s]
  show ?thesis using assms(2) by (simp add: computeInactiveRanges_loop_stop)
qed

lemma computeInactiveRanges_loop_Nil [simp]: "computeInactiveRanges_loop g [] 0 s = s"
  by (simp add: computeInactiveRanges_loop_stop)

lemma computeInactiveRanges_loop_record:
  "computeInactiveRanges_loop g (a # b # x # t # m # rest) 0 s =
     computeInactiveRanges_loop g rest 0
       (token_round g s (Num (unat a)) (Num (unat b)) (Num (unat x)) (Num (unat t)))"
proof -
  have "computeInactiveRanges_loop g ([a, b, x, t, m] @ rest) 0 s
      = computeInactiveRanges_loop g rest 0 (computeInactiveRanges_loop g [a, b, x, t, m] 0 s)"
    by (rule computeInactiveRanges_loop_append) simp
  moreover have "computeInactiveRanges_loop g [a, b, x, t, m] 0 s
      = token_round g s (Num (unat a)) (Num (unat b)) (Num (unat x)) (Num (unat t))"
    by (subst computeInactiveRanges_loop_single) (simp_all add: rd_def to_jsval_def)
  ultimately show ?thesis by simp
qed

lemma token_round_exact:
  assumes "l + dl \<le> 2 ^ 53"
    and "col = (if dl = 0 then c + dc else dc)"
    and "col + n \<le> 2 ^ 53"
  shows "token_round g (Num l, Num c, acc) (Num dl) (Num dc) (Num n) (Num ty) =
     (Num (l + dl), Num col,
      if inactiveCodeTokenTypeIndex g = Some ty
      then acc @ [\<lparr>startLine = Num (l + dl), startCharacter = Num col,
                   endLine = Num (l + dl), endCharacter = Num (col + n)\<rparr>]
      else acc)"
proof -
  have col: "col \<le> 2 ^ 53" using assms(3) by simp
  have line: "js_add (Num l) (Num dl) = Num (l + dl)"
    by (rule js_add_exact [OF assms(1)])
  have c: "(if js_is_zero (Num dl) then js_add (Num c) (Num dc) else Num dc) = Num col"
    using col assms(2) by (auto simp: round_double_exact)
  have e: "js_add (Num col) (Num n) = Num (col + n)"
    by (rule js_add_exact [OF assms(3)])
  show ?thesis
    unfolding token_round_def prod.case Let_def line c e new_Range_ordered
    by (simp del: js_add.simps)
qed

lemma pos_le_refl: "pos_le p p"
  by (simp add: pos_le_def)

lemma pos_le_trans: "pos_le p q \<Longrightarrow> pos_le q r \<Longrightarrow> pos_le p r"
  by (auto simp: pos_le_def)

lemma spec_decode_from_ge:
  "r \<in> set (spec_decode_from l c rs) \<Longrightarrow> pos_le (l, c) (absLine r, absColumn r)"
proof (induction rs arbitrary: l c)
  case Nil
  then show ?case by simp
next
  case (Cons x xs)
  define line col where "line = l + deltaLine x"
    and "col = (if deltaLine x = 0 then c + deltaStartColumn x else deltaStartColumn x)"
  have first: "pos_le (l, c) (line, col)" by (auto simp: pos_le_def line_def col_def)
  from Cons.prems consider "absLine r = line \<and> absColumn r = col"
    | "r \<in> set (spec_decode_from line col xs)"
    by (auto simp: Let_def line_def col_def)
  then show ?case
  proof cases
    case 1
    then show ?thesis using first by simp
  next
    case 2
    from Cons.IH [OF this] first show ?thesis by (blast intro: pos_le_trans)
  qed
qed

lemma sorted_spec_decode_from:
  "sorted_wrt (\<lambda>a b. pos_le (absLine a, absColumn a) (absLine b, absColumn b))
     (spec_decode_from l c rs)"
proof (induction rs arbitrary: l c)
  case Nil
  then show ?case by simp
next
  case (Cons x xs)
  show ?case using Cons.IH by (auto simp: Let_def dest: spec_decode_from_ge)
qed

lemma range_le_spec_range:
  "range_le (spec_range a) (spec_range b) = pos_le (absLine a, absColumn a) (absLine b, absColumn b)"
  by (simp add: range_le_def spec_range_def)

lemma sorted_spec_extract:
  "sorted_wrt range_le (spec_extract (spec_decode_from l c rs) s)"
  unfolding spec_extract_def sorted_wrt_map range_le_spec_range
  by (rule sorted_wrt_filter) (rule sorted_spec_decode_from)

lemma length_spec_decode_from [simp]: "length (spec_decode_from l c rs) = length rs"
  by (induction rs arbitrary: l c) (simp_all add: Let_def)

lemma length_spec_records: "length (spec_records d) = length d div 5"
  by (induction d rule: spec_records.induct) simp_all

lemma computeInactiveRanges_loop_spec:
  assumes "inactiveCodeTokenTypeIndex g = Some s"
  shows "length d mod 5 = 0 \<Longrightarrow>
     \<forall>r \<in> set (spec_decode_from l c (spec_records d)).
        absLine r \<le> 2 ^ 53 \<and> absColumn r + alength r \<le> 2 ^ 53 \<Longrightarrow>
     snd (snd (computeInactiveRanges_loop g d 0 (Num l, Num c, acc)))
       = acc @ spec_extract (spec_decode_from l c (spec_records d)) s"
proof (induction d arbitrary: l c acc rule: spec_records.induct)
  case (1 a b x t m rest)
  define line col where "line = l + unat a"
    and "col = (if unat a = 0 then c + unat b else unat b)"
  have dec: "spec_decode_from l c (spec_records (a # b # x # t # m # rest)) =
       \<lparr>absLine = line, absColumn = col, alength = unat x, typeCode = unat t,
        modifierBits = unat m\<rparr> # spec_decode_from line col (spec_records rest)"
    by (simp add: Let_def line_def col_def)
  have b1: "line \<le> 2 ^ 53" and b2: "col + unat x \<le> 2 ^ 53"
    and brest: "\<forall>r \<in> set (spec_decode_from line col (spec_records rest)).
        absLine r \<le> 2 ^ 53 \<and> absColumn r + alength r \<le> 2 ^ 53"
    using "1.prems"(2) unfolding dec by simp_all
  have len: "length rest mod 5 = 0" using "1.prems"(1) by simp
  have round: "token_round g (Num l, Num c, acc) (Num (unat a)) (Num (unat b)) (Num (unat x))
                 (Num (unat t)) =
     (Num line, Num col,
      if inactiveCodeTokenTypeIndex g = Some (unat t)
      then acc @ [\<lparr>startLine = Num line, startCharacter = Num col,
                   endLine = Num line, endCharacter = Num (col + unat x)\<rparr>]
      else acc)"
    unfolding line_def by (rule token_round_exact) (use b1 b2 in \<open>simp_all add: line_def col_def\<close>)
  show ?case
    unfolding computeInactiveRanges_loop_record round dec
    by (simp add: "1.IH" [OF len brest] assms spec_extract_def spec_range_def)
qed (simp_all add: spec_extract_def)

text \<open>
  C2, as the code has it. For a stream of whole records (a length that is a multiple of 5), a
  defined \<open>inactiveCodeTokenTypeIndex\<close>, and decoded positions within \<open>2 ^ 53\<close> (every decoded
  line and every decoded end column is at most \<open>2 ^ 53\<close>, where the addition of doubles is
  exact), \<open>computeInactiveRanges\<close> returns, in stream order, one single-line range
  \<open>(line, column) .. (line, column + length)\<close> for each decoded record whose type code is the
  index, and nothing else. The absolute positions are those of the specification's decoding,
  which starts at \<open>(0, 0)\<close>; there is one decoded record for each five integers. The decoded
  records, and so the ranges returned, are non-decreasing in \<open>(line, column)\<close>. An empty
  stream and a stream without a matching record give the empty list.
\<close>

theorem computeInactiveRanges_extracts:
  assumes "length (arr h (data tokens)) mod 5 = 0"
    and "inactiveCodeTokenTypeIndex g = Some s"
    and "\<forall>r \<in> set (spec_decode (arr h (data tokens))).
           absLine r \<le> 2 ^ 53 \<and> absColumn r + alength r \<le> 2 ^ 53"
  shows "computeInactiveRanges g h tokens = spec_extract (spec_decode (arr h (data tokens))) s
       \<and> length (spec_decode (arr h (data tokens))) = length (arr h (data tokens)) div 5
       \<and> sorted_wrt (\<lambda>a b. pos_le (absLine a, absColumn a) (absLine b, absColumn b))
            (spec_decode (arr h (data tokens)))
       \<and> sorted_wrt range_le (computeInactiveRanges g h tokens)
       \<and> (arr h (data tokens) = [] \<longrightarrow> computeInactiveRanges g h tokens = [])
       \<and> ((\<forall>r \<in> set (spec_decode (arr h (data tokens))). typeCode r \<noteq> s) \<longrightarrow>
            computeInactiveRanges g h tokens = [])"
proof -
  let ?d = "arr h (data tokens)"
  have eq: "computeInactiveRanges g h tokens = spec_extract (spec_decode ?d) s"
    using computeInactiveRanges_loop_spec [OF assms(2,1), of 0 0 "[]"] assms(3)
    by (simp add: computeInactiveRanges_def spec_decode_def)
  have len: "length (spec_decode ?d) = length ?d div 5"
    by (simp add: spec_decode_def length_spec_records)
  have sorted_all: "sorted_wrt (\<lambda>a b. pos_le (absLine a, absColumn a) (absLine b, absColumn b))
            (spec_decode ?d)"
    unfolding spec_decode_def by (rule sorted_spec_decode_from)
  have sorted_out: "sorted_wrt range_le (computeInactiveRanges g h tokens)"
    unfolding eq spec_decode_def by (rule sorted_spec_extract)
  have empty: "computeInactiveRanges g h tokens = []" if "?d = []"
    unfolding eq using that by (simp add: spec_decode_def spec_extract_def)
  have none: "computeInactiveRanges g h tokens = []"
    if "\<forall>r \<in> set (spec_decode ?d). typeCode r \<noteq> s"
    unfolding eq spec_extract_def using that by (simp add: filter_empty_conv)
  show ?thesis using eq len sorted_all sorted_out empty none by blast
qed

theorem computeInactiveRanges_extracts_witness:
  "length (arr [[2, 4, 6, 0, 0, 0, 3, 2, 1, 0, 0, 5, 1, 0, 0]] (data \<lparr>resultId = None, data = 0\<rparr>)) mod 5 = 0
   \<and> inactiveCodeTokenTypeIndex
        \<lparr>inactiveCodeTokenTypeIndex = Some 0, inactiveCodeTokenTypeReplaceIndex = Some 2\<rparr> = Some 0
   \<and> spec_decode [2, 4, 6, 0, 0, 0, 3, 2, 1, 0, 0, 5, 1, 0, 0]
      = [\<lparr>absLine = 2, absColumn = 4, alength = 6, typeCode = 0, modifierBits = 0\<rparr>,
         \<lparr>absLine = 2, absColumn = 7, alength = 2, typeCode = 1, modifierBits = 0\<rparr>,
         \<lparr>absLine = 2, absColumn = 12, alength = 1, typeCode = 0, modifierBits = 0\<rparr>]
   \<and> computeInactiveRanges
        \<lparr>inactiveCodeTokenTypeIndex = Some 0, inactiveCodeTokenTypeReplaceIndex = Some 2\<rparr>
        [[2, 4, 6, 0, 0, 0, 3, 2, 1, 0, 0, 5, 1, 0, 0]] \<lparr>resultId = None, data = 0\<rparr>
      = spec_extract (spec_decode [2, 4, 6, 0, 0, 0, 3, 2, 1, 0, 0, 5, 1, 0, 0]) 0
   \<and> spec_extract (spec_decode [2, 4, 6, 0, 0, 0, 3, 2, 1, 0, 0, 5, 1, 0, 0]) 0
      = [\<lparr>startLine = Num 2, startCharacter = Num 4, endLine = Num 2, endCharacter = Num 10\<rparr>,
         \<lparr>startLine = Num 2, startCharacter = Num 12, endLine = Num 2, endCharacter = Num 13\<rparr>]"
proof -
  have a: "arr [[2, 4, 6, 0, 0, 0, 3, 2, 1, 0, 0, 5, 1, 0, 0]] (data \<lparr>resultId = None, data = 0\<rparr>)
     = [2, 4, 6, 0, 0, 0, 3, 2, 1, 0, 0, 5, 1, 0, 0]"
    by (simp add: arr_def)
  have len: "length (arr [[2, 4, 6, 0, 0, 0, 3, 2, 1, 0, 0, 5, 1, 0, 0]]
                (data \<lparr>resultId = None, data = 0\<rparr>)) mod 5 = 0"
    unfolding a by simp
  have idx: "inactiveCodeTokenTypeIndex
        \<lparr>inactiveCodeTokenTypeIndex = Some 0, inactiveCodeTokenTypeReplaceIndex = Some 2\<rparr> = Some 0"
    by simp
  have dec: "spec_decode [2, 4, 6, 0, 0, 0, 3, 2, 1, 0, 0, 5, 1, 0, 0]
      = [\<lparr>absLine = 2, absColumn = 4, alength = 6, typeCode = 0, modifierBits = 0\<rparr>,
         \<lparr>absLine = 2, absColumn = 7, alength = 2, typeCode = 1, modifierBits = 0\<rparr>,
         \<lparr>absLine = 2, absColumn = 12, alength = 1, typeCode = 0, modifierBits = 0\<rparr>]"
    by (simp add: spec_decode_def Let_def)
  have bound: "\<forall>r \<in> set (spec_decode (arr [[2, 4, 6, 0, 0, 0, 3, 2, 1, 0, 0, 5, 1, 0, 0]]
                (data \<lparr>resultId = None, data = 0\<rparr>))).
           absLine r \<le> 2 ^ 53 \<and> absColumn r + alength r \<le> 2 ^ 53"
    unfolding a dec by simp
  have ev: "spec_extract (spec_decode [2, 4, 6, 0, 0, 0, 3, 2, 1, 0, 0, 5, 1, 0, 0]) 0
      = [\<lparr>startLine = Num 2, startCharacter = Num 4, endLine = Num 2, endCharacter = Num 10\<rparr>,
         \<lparr>startLine = Num 2, startCharacter = Num 12, endLine = Num 2, endCharacter = Num 13\<rparr>]"
    unfolding dec by (simp add: spec_extract_def spec_range_def)
  from computeInactiveRanges_extracts [OF len idx bound]
  have "computeInactiveRanges
        \<lparr>inactiveCodeTokenTypeIndex = Some 0, inactiveCodeTokenTypeReplaceIndex = Some 2\<rparr>
        [[2, 4, 6, 0, 0, 0, 3, 2, 1, 0, 0, 5, 1, 0, 0]] \<lparr>resultId = None, data = 0\<rparr>
      = spec_extract (spec_decode [2, 4, 6, 0, 0, 0, 3, 2, 1, 0, 0, 5, 1, 0, 0]) 0"
    unfolding a by blast
  then show ?thesis using len idx dec ev by blast
qed

lemma length_concat_replicate: "length (concat (replicate n xs)) = n * length xs"
  by (induction n) simp_all

text \<open>
  Many equal records whose line stays within \<open>2 ^ 53\<close> and whose type is not the index: the
  loop passes them and only the line grows.
\<close>

lemma computeInactiveRanges_loop_bulk:
  assumes "inactiveCodeTokenTypeIndex g \<noteq> Some (unat ty)" and "0 < unat w"
  shows "l + n * unat w \<le> 2 ^ 53 \<Longrightarrow>
     computeInactiveRanges_loop g (concat (replicate n [w, b, x, ty, m]) @ tail) 0
       (Num l, Num c, acc)
     = computeInactiveRanges_loop g tail 0
         (Num (l + n * unat w), Num (if n = 0 then c else unat b), acc)"
proof (induction n arbitrary: l c)
  case 0
  then show ?case by simp
next
  case (Suc n)
  have l1: "l + unat w \<le> 2 ^ 53" using Suc.prems by simp
  have round: "token_round g (Num l, Num c, acc) (Num (unat w)) (Num (unat b)) (Num (unat x))
                 (Num (unat ty)) = (Num (l + unat w), Num (unat b), acc)"
    using assms
    by (simp add: token_round_def Let_def js_add_exact [OF l1] del: js_add.simps)
  have rest: "l + unat w + n * unat w \<le> 2 ^ 53" using Suc.prems by simp
  have col: "(if n = 0 then unat b else unat b) = unat b" by simp
  show ?case
    using Suc.IH [OF rest, of "unat b"]
    by (simp add: computeInactiveRanges_loop_record round col add.assoc del: js_add.simps)
qed

lemma round_double_tie: "round_double (2 ^ 53 + 1) = 2 ^ 53"
proof -
  have "double_exponent (2 ^ 53 + 1) = Suc 0"
    by (simp add: double_exponent_step double_exponent_small)
  then show ?thesis unfolding round_double_def by simp
qed

lemma round_double_tie_numeral: "round_double 9007199254740993 = 9007199254740992"
  using round_double_tie by simp

text \<open>
  C2 as stated fails on a stream whose lines reach \<open>2 ^ 53\<close>. After 2097152 records of delta
  line \<open>2 ^ 32 - 1\<close> and one of delta line \<open>2 ^ 21\<close> the line is \<open>2 ^ 53\<close>. A record of delta
  line 1 then leaves the line where it is, since \<open>2 ^ 53 + 1\<close> rounds to \<open>2 ^ 53\<close>, but its
  character is taken as absolute, since its delta line is not 0. Two such records of the index
  type, at characters 5 and 0, give two ranges on the same line with the second before the
  first.
\<close>

theorem computeInactiveRanges_rounding_counterexample:
  "length (arr [concat (replicate 2097152 [4294967295, 0, 1, 1, 0])
                  @ [2097152, 0, 1, 1, 0, 1, 5, 1, 0, 0, 1, 0, 1, 0, 0]]
             (data \<lparr>resultId = None, data = 0\<rparr>)) mod 5 = 0
   \<and> computeInactiveRanges
        \<lparr>inactiveCodeTokenTypeIndex = Some 0, inactiveCodeTokenTypeReplaceIndex = Some 2\<rparr>
        [concat (replicate 2097152 [4294967295, 0, 1, 1, 0])
           @ [2097152, 0, 1, 1, 0, 1, 5, 1, 0, 0, 1, 0, 1, 0, 0]]
        \<lparr>resultId = None, data = 0\<rparr>
      = [\<lparr>startLine = Num (2 ^ 53), startCharacter = Num 5,
          endLine = Num (2 ^ 53), endCharacter = Num 6\<rparr>,
         \<lparr>startLine = Num (2 ^ 53), startCharacter = Num 0,
          endLine = Num (2 ^ 53), endCharacter = Num 1\<rparr>]
   \<and> \<not> sorted_wrt range_le
         (computeInactiveRanges
            \<lparr>inactiveCodeTokenTypeIndex = Some 0, inactiveCodeTokenTypeReplaceIndex = Some 2\<rparr>
            [concat (replicate 2097152 [4294967295, 0, 1, 1, 0])
               @ [2097152, 0, 1, 1, 0, 1, 5, 1, 0, 0, 1, 0, 1, 0, 0]]
            \<lparr>resultId = None, data = 0\<rparr>)"
proof -
  let ?g = "\<lparr>inactiveCodeTokenTypeIndex = Some 0, inactiveCodeTokenTypeReplaceIndex = Some 2\<rparr>"
  define bulk :: "u32 list" where "bulk = concat (replicate 2097152 [4294967295, 0, 1, 1, 0])"
  let ?tail = "[2097152, 0, 1, 1, 0, 1, 5, 1, 0, 0, 1, 0, 1, 0, 0] :: u32 list"
  have a: "arr [bulk @ ?tail] (data \<lparr>resultId = None, data = 0\<rparr>) = bulk @ ?tail"
    by (simp add: arr_def)
  have len: "length (bulk @ ?tail) mod 5 = 0"
    by (simp add: bulk_def length_concat_replicate)
  have through: "computeInactiveRanges_loop ?g (bulk @ ?tail) 0 (Num 0, Num 0, [])
      = computeInactiveRanges_loop ?g ?tail 0 (Num 9007199252643840, Num 0, [])"
    unfolding bulk_def
    by (subst computeInactiveRanges_loop_bulk) simp_all
  have tail: "computeInactiveRanges_loop ?g ?tail 0 (Num 9007199252643840, Num 0, [])
      = (Num 9007199254740992, Num 0,
         [\<lparr>startLine = Num 9007199254740992, startCharacter = Num 5,
           endLine = Num 9007199254740992, endCharacter = Num 6\<rparr>,
          \<lparr>startLine = Num 9007199254740992, startCharacter = Num 0,
           endLine = Num 9007199254740992, endCharacter = Num 1\<rparr>])"
    by (simp add: computeInactiveRanges_loop_record token_round_def Let_def round_double_exact
          round_double_tie_numeral new_Range_def isBefore_def)
  have res: "computeInactiveRanges ?g [bulk @ ?tail] \<lparr>resultId = None, data = 0\<rparr>
      = [\<lparr>startLine = Num (2 ^ 53), startCharacter = Num 5,
          endLine = Num (2 ^ 53), endCharacter = Num 6\<rparr>,
         \<lparr>startLine = Num (2 ^ 53), startCharacter = Num 0,
          endLine = Num (2 ^ 53), endCharacter = Num 1\<rparr>]"
    unfolding computeInactiveRanges_def a through tail by simp
  have unsorted: "\<not> sorted_wrt range_le (computeInactiveRanges ?g [bulk @ ?tail]
                      \<lparr>resultId = None, data = 0\<rparr>)"
    unfolding res by (simp add: range_le_def pos_le_def)
  have len': "length (arr [bulk @ ?tail] (data \<lparr>resultId = None, data = 0\<rparr>)) mod 5 = 0"
    unfolding a by (rule len)
  show ?thesis using len' res unsorted unfolding bulk_def by blast
qed

text \<open>Rules that evaluate the loop on a stream that is written out.\<close>

lemmas ranges_eval =
  computeInactiveRanges_def arr_def computeInactiveRanges_loop_record
  computeInactiveRanges_loop_single token_round_def Let_def round_double_exact new_Range_def
  isBefore_def rd_def to_jsval_def var_val_def

text \<open>
  With an index left from an earlier \<open>initialize\<close>, as after the legends
  \<open>['a', 'b', 'comment']\<close> and then \<open>['x', 'y']\<close>, the index is defined: a record of type 2 is
  extracted although the legend of the session has no \<open>'comment'\<close>.
\<close>

lemma stale_index_still_extracts:
  "computeInactiveRanges
     \<lparr>inactiveCodeTokenTypeIndex = Some 2, inactiveCodeTokenTypeReplaceIndex = Some 2\<rparr>
     [[0, 0, 1, 2, 0]] \<lparr>resultId = None, data = 0\<rparr>
   = [\<lparr>startLine = Num 0, startCharacter = Num 0, endLine = Num 0, endCharacter = Num 1\<rparr>]"
  by (simp add: ranges_eval)


text \<open>A stream that ends in a partial record: the loop runs one more round on it.\<close>

lemma computeInactiveRanges_loop_partial:
  assumes "length d mod 5 \<noteq> 0" and "n = length d div 5"
  shows "computeInactiveRanges_loop g d 0 s =
     token_round g (computeInactiveRanges_loop g (take (5 * n) d) 0 s)
       (to_jsval (rd d (int (5 * n)))) (to_jsval (rd d (int (5 * n + 1))))
       (to_jsval (rd d (int (5 * n + 2)))) (to_jsval (rd d (int (5 * n + 3))))"
proof -
  define pre rest where "pre = take (5 * n) d" and "rest = drop (5 * n) d"
  have le: "5 * n \<le> length d" using assms(2) by simp
  have d: "d = pre @ rest" by (simp add: pre_def rest_def)
  have len_pre: "length pre = 5 * n" using le by (simp add: pre_def)
  have len_rest: "0 < length rest" "length rest \<le> 5"
    using assms by (simp_all add: rest_def) presburger+
  have reads: "rd rest (int k) = rd d (int (5 * n + k))" for k
    using rd_append_right [of pre rest k] by (simp only: d [symmetric] len_pre)
  have r: "rd rest 0 = rd d (int (5 * n))" "rd rest 1 = rd d (int (5 * n + 1))"
    "rd rest 2 = rd d (int (5 * n + 2))" "rd rest 3 = rd d (int (5 * n + 3))"
    using reads [of 0] reads [of 1] reads [of 2] reads [of 3] by simp_all
  have "computeInactiveRanges_loop g (pre @ rest) 0 s
      = computeInactiveRanges_loop g rest 0 (computeInactiveRanges_loop g pre 0 s)"
    by (rule computeInactiveRanges_loop_append) (simp add: len_pre)
  also have "\<dots> = token_round g (computeInactiveRanges_loop g pre 0 s)
       (to_jsval (rd rest 0)) (to_jsval (rd rest 1)) (to_jsval (rd rest 2)) (to_jsval (rd rest 3))"
    by (rule computeInactiveRanges_loop_single [OF len_rest])
  finally have "computeInactiveRanges_loop g (pre @ rest) 0 s
      = token_round g (computeInactiveRanges_loop g pre 0 s)
       (to_jsval (rd d (int (5 * n)))) (to_jsval (rd d (int (5 * n + 1))))
       (to_jsval (rd d (int (5 * n + 2)))) (to_jsval (rd d (int (5 * n + 3))))"
    unfolding r .
  then show ?thesis unfolding d [symmetric] unfolding pre_def .
qed

lemma partial_record_reads:
  assumes "length d mod 5 \<noteq> 0" and "n = length d div 5"
  shows "rd d (int (5 * n)) = Some (d ! (5 * n))" and "rd d (int (5 * n + 4)) = None"
proof -
  have "5 * n < length d" "\<not> 5 * n + 4 < length d" using assms by presburger+
  then show "rd d (int (5 * n)) = Some (d ! (5 * n))" and "rd d (int (5 * n + 4)) = None"
    by (simp_all only: rd_nat if_True if_False)
qed

section \<open>Applying a delta\<close>

lemma copy_loop_stop: "\<not> i < len \<Longrightarrow> copy_loop src so dest dof len i = dest"
  by (subst copy_loop.simps) simp

lemma copy_loop_step:
  assumes "i < n" and "so + n \<le> length src" and "dof + n \<le> length dest"
  shows "copy_loop src (int so) dest (int dof) (int n) (int i)
       = copy_loop src (int so) (dest[dof + i := src ! (so + i)]) (int dof) (int n) (int (i + 1))"
proof -
  define a b where "a = dof + i" and "b = so + i"
  have offs: "int dof + int i = int a" "int so + int i = int b" "int i + 1 = int (i + 1)"
    by (simp_all add: a_def b_def)
  have lt: "a < length dest" "b < length src" "int i < int n"
    using assms by (simp_all add: a_def b_def)
  show ?thesis
    apply (subst copy_loop.simps)
    unfolding offs a_def [symmetric] b_def [symmetric]
    using lt by (simp add: wr_nat)
qed

lemma copy_loop_range:
  assumes "i \<le> n" and "so + n \<le> length src" and "dof + n \<le> length dest"
  shows "copy_loop src (int so) dest (int dof) (int n) (int i)
       = take (dof + i) dest @ take (n - i) (drop (so + i) src) @ drop (dof + n) dest"
  using assms
proof (induction "n - i" arbitrary: i dest rule: less_induct)
  case less
  show ?case
  proof (cases "i < n")
    case False
    then have "i = n" using less.prems by simp
    then show ?thesis by (simp add: copy_loop_stop)
  next
    case True
    define dest' where "dest' = dest[dof + i := src ! (so + i)]"
    have len': "length dest' = length dest" by (simp add: dest'_def)
    have smaller: "n - (i + 1) < n - i" using True by simp
    have ih: "copy_loop src (int so) dest' (int dof) (int n) (int (i + 1))
       = take (dof + (i + 1)) dest' @ take (n - (i + 1)) (drop (so + (i + 1)) src)
           @ drop (dof + n) dest'"
      using less.hyps [OF smaller, of dest'] True less.prems len' by simp
    have t: "take (dof + (i + 1)) dest' = take (dof + i) dest @ [src ! (so + i)]"
      using True less.prems(3) unfolding dest'_def
      by (simp add: take_Suc_conv_app_nth)
    have d: "drop (dof + n) dest' = drop (dof + n) dest"
      using True unfolding dest'_def by simp
    have s: "take (n - i) (drop (so + i) src)
           = src ! (so + i) # take (n - (i + 1)) (drop (so + (i + 1)) src)"
    proof -
      have "so + i < length src" using True less.prems(2) by simp
      then have "drop (so + i) src = src ! (so + i) # drop (so + (i + 1)) src"
        by (simp add: Cons_nth_drop_Suc)
      moreover have "n - i = Suc (n - (i + 1))" using True by simp
      ultimately show ?thesis by simp
    qed
    show ?thesis
      unfolding copy_loop_step [OF True less.prems(2,3)] dest'_def [symmetric] ih t d s by simp
  qed
qed

lemma copy_range:
  assumes "so + n \<le> length src" and "dof + n \<le> length dest"
  shows "copy src (int so) dest (int dof) (int n)
       = take dof dest @ take n (drop so src) @ drop (dof + n) dest"
  using copy_loop_range [of 0 n so src dof dest] assms by (simp add: copy_def)

lemma copy_whole: "copy src 0 (replicate (length src) 0) 0 (int (length src)) = src"
  using copy_range [of 0 "length src" src 0 "replicate (length src) 0"] by simp

lemma applyDelta_eq:
  "applyDelta h prev delta =
     (case applyDelta_data (arr h (data prev)) (edits delta) of
        Inl err \<Rightarrow> Inl err
      | Inr destData \<Rightarrow> Inr (h @ [destData], \<lparr>resultId = edits_resultId delta, data = length h\<rparr>))"
  by (simp add: applyDelta_def alloc_def split: sum.splits)

lemma applyDelta_at:
  assumes "length h = n" and "applyDelta_data (arr h (data prev)) (edits delta) = Inr d'"
  shows "applyDelta h prev delta = Inr (h @ [d'], \<lparr>resultId = edits_resultId delta, data = n\<rparr>)"
  using assms by (simp add: applyDelta_eq)

text \<open>
  C6. \<open>applyDelta\<close> with an empty edit list returns a new array whose contents are those of
  the previous buffer (with the result id of the delta).
\<close>

theorem applyDelta_no_edits:
  "applyDelta h prev \<lparr>edits_resultId = r, edits = []\<rparr>
     = Inr (h @ [arr h (data prev)], \<lparr>resultId = r, data = length h\<rparr>)
   \<and> arr (h @ [arr h (data prev)]) (data \<lparr>resultId = r, data = length h\<rparr>) = arr h (data prev)"
proof -
  let ?src = "arr h (data prev)"
  have "applyDelta_data ?src [] = Inr ?src"
  proof (cases "?src = []")
    case True
    then show ?thesis by (simp add: applyDelta_data_def new_Uint32Array_def applyDelta_finish_def)
  next
    case False
    then show ?thesis using copy_whole [of ?src]
      by (simp add: applyDelta_data_def new_Uint32Array_def applyDelta_finish_def)
  qed
  then show ?thesis by (simp add: applyDelta_eq arr_alloc_new)
qed

lemma edits_ok_le: "edits_ok pos es n \<Longrightarrow> pos \<le> n"
proof (induction es arbitrary: pos)
  case Nil
  then show ?case by simp
next
  case (Cons e es)
  have "start e + deleteCount e \<le> n" using Cons.IH [of "start e + deleteCount e"] Cons.prems by simp
  then show ?case using Cons.prems by simp
qed

lemma edits_ok_snoc:
  "edits_ok pos (es @ [e]) n = (edits_ok pos es (start e) \<and> start e + deleteCount e \<le> n)"
  by (induction es arbitrary: pos) auto

lemma take_drop_take:
  "b \<le> q \<Longrightarrow> take (b - a) (drop a (take q xs)) = take (b - a) (drop a xs)"
  by (simp add: drop_take min_def)

lemma length_spec_spliced:
  "edits_ok pos es n \<Longrightarrow> n \<le> length src \<Longrightarrow>
   int (length (spec_spliced src pos es)) = int (length src) - int pos + deltaLength es"
proof (induction es arbitrary: pos)
  case Nil
  then show ?case by simp
next
  case (Cons e es)
  have ok: "pos \<le> start e" "edits_ok (start e + deleteCount e) es n" using Cons.prems(1) by simp_all
  have le: "start e + deleteCount e \<le> n" using ok(2) by (rule edits_ok_le)
  have "int (length (spec_spliced src (start e + deleteCount e) es))
      = int (length src) - int (start e + deleteCount e) + deltaLength es"
    using Cons.IH [OF ok(2) Cons.prems(2)] .
  moreover have "length (take (start e - pos) (drop pos src)) = start e - pos"
    using le Cons.prems(2) by simp
  ultimately show ?case using ok(1) by simp
qed

lemma spec_spliced_snoc:
  "edits_ok pos (es @ [e]) p \<Longrightarrow> p \<le> length src \<Longrightarrow>
   spec_spliced (take p src) pos (es @ [e]) =
     spec_spliced (take (start e) src) pos es @ inserted e
       @ take (p - (start e + deleteCount e)) (drop (start e + deleteCount e) src)"
proof (induction es arbitrary: pos)
  case Nil
  have le: "pos \<le> start e" "start e + deleteCount e \<le> p" using Nil.prems(1) by simp_all
  have 1: "take (start e - pos) (drop pos (take p src)) = drop pos (take (start e) src)"
    using le by (simp add: drop_take min_def)
  have 2: "drop (start e + deleteCount e) (take p src)
         = take (p - (start e + deleteCount e)) (drop (start e + deleteCount e) src)"
    by (simp add: drop_take)
  show ?case by (simp add: 1 2 del: drop_take)
next
  case (Cons x xs)
  have ok: "pos \<le> start x" "edits_ok (start x + deleteCount x) (xs @ [e]) p"
    using Cons.prems(1) by simp_all
  have "edits_ok (start x + deleteCount x) xs (start e)" "start e + deleteCount e \<le> p"
    using ok(2) by (simp_all add: edits_ok_snoc)
  then have le: "start x \<le> start e" "start e \<le> p" using edits_ok_le by fastforce+
  have "take (start x - pos) (drop pos (take p src)) = take (start x - pos) (drop pos src)"
    using le by (intro take_drop_take) simp
  moreover have "take (start x - pos) (drop pos (take (start e) src))
               = take (start x - pos) (drop pos src)"
    using le by (intro take_drop_take) simp
  ultimately show ?case using Cons.IH [OF ok(2) Cons.prems(2)] by simp
qed

lemma applyDelta_step_ok:
  assumes le: "start e + deleteCount e \<le> p" and p: "p \<le> length src"
    and room: "(p - (start e + deleteCount e)) + length (inserted e) \<le> length Z"
  shows "applyDelta_step src e (Z @ R, int p, int (length Z)) =
     (take (length Z - (p - (start e + deleteCount e)) - length (inserted e)) Z @ inserted e
        @ take (p - (start e + deleteCount e)) (drop (start e + deleteCount e) src) @ R,
      int (start e),
      int (length Z - (p - (start e + deleteCount e)) - length (inserted e)))"
proof -
  define cc q z1 where "cc = p - (start e + deleteCount e)" and "q = start e + deleteCount e"
    and "z1 = length Z - cc"
  define gap where "gap = take cc (drop q src)"
  have cc_int: "int p - (int (start e) + int (deleteCount e)) = int cc"
    using le by (simp add: cc_def)
  have src_off: "int p - int cc = int q" using le by (simp add: cc_def q_def)
  have dst_off: "int (length Z) - int cc = int z1" using room by (simp add: z1_def cc_def)
  have z1_le: "z1 \<le> length Z" by (simp add: z1_def)
  have cc_room: "cc \<le> length Z" using room by (simp add: cc_def)
  have first: "copy src (int q) (Z @ R) (int z1) (int cc) = take z1 Z @ gap @ R"
  proof -
    have "q + cc \<le> length src" using le p by (simp add: q_def cc_def)
    moreover have "z1 + cc \<le> length (Z @ R)" using cc_room by (simp add: z1_def)
    ultimately have "copy src (int q) (Z @ R) (int z1) (int cc)
        = take z1 (Z @ R) @ take cc (drop q src) @ drop (z1 + cc) (Z @ R)"
      by (rule copy_range)
    moreover have "z1 + cc = length Z" using cc_room by (simp add: z1_def)
    ultimately show ?thesis using z1_le by (simp add: gap_def)
  qed
  have zero: "take z1 Z @ gap @ R = Z @ R" if "cc = 0"
    using that by (simp add: z1_def gap_def)
  define dest1 where "dest1 = take z1 Z @ gap @ R"
  have stage1: "(if int cc \<noteq> 0
                then (copy src (int p - int cc) (Z @ R) (int (length Z) - int cc) (int cc),
                      int (length Z) - int cc)
                else (Z @ R, int (length Z))) = (dest1, int z1)"
  proof (cases "cc = 0")
    case True
    then show ?thesis using zero by (simp add: dest1_def z1_def)
  next
    case False
    then show ?thesis unfolding src_off dst_off first dest1_def by simp
  qed
  define z2 where "z2 = z1 - length (inserted e)"
  have ins_room: "length (inserted e) \<le> z1" using room by (simp add: z1_def cc_def)
  have stage2: "(case edit_data e of
                  None \<Rightarrow> (dest1, int z1)
                | Some ed \<Rightarrow>
                    (copy ed 0 dest1 (int z1 - int (length ed)) (int (length ed)),
                     int z1 - int (length ed)))
              = (take z2 Z @ inserted e @ gap @ R, int z2)"
  proof (cases "edit_data e")
    case None
    then have "inserted e = []" by (simp add: inserted_def)
    then show ?thesis using None by (simp add: z2_def dest1_def)
  next
    case (Some ed)
    then have ins: "inserted e = ed" by (simp add: inserted_def)
    have off: "int z1 - int (length ed) = int z2" using ins_room by (simp add: z2_def ins)
    have "0 + length ed \<le> length ed" by simp
    moreover have "z2 + length ed \<le> length dest1"
      using ins_room z1_le by (simp add: z2_def ins dest1_def)
    ultimately have "copy ed (int 0) dest1 (int z2) (int (length ed))
        = take z2 dest1 @ take (length ed) (drop 0 ed) @ drop (z2 + length ed) dest1"
      by (rule copy_range)
    moreover have "z2 + length ed = z1" using ins_room by (simp add: z2_def ins)
    moreover have "take z2 dest1 = take z2 Z" using z1_le by (simp add: dest1_def z2_def)
    moreover have "drop z1 dest1 = gap @ R" using z1_le by (simp add: dest1_def)
    ultimately have "copy ed 0 dest1 (int z2) (int (length ed)) = take z2 Z @ ed @ gap @ R"
      by simp
    then show ?thesis using Some by (simp add: ins off)
  qed
  have "applyDelta_step src e (Z @ R, int p, int (length Z))
      = (take z2 Z @ inserted e @ gap @ R, int (start e), int z2)"
    unfolding applyDelta_step_def prod.case Let_def cc_int stage1 stage2 by simp
  then show ?thesis by (simp add: z2_def z1_def gap_def cc_def q_def)
qed

lemma applyDelta_loop_spliced:
  assumes "edits_ok 0 es p" and "p \<le> length src"
    and "length Z = length (spec_spliced (take p src) 0 es)"
  shows "applyDelta_finish src (applyDelta_loop src (rev es) (Z @ R, int p, int (length Z)))
       = spec_spliced (take p src) 0 es @ R"
  using assms
proof (induction es arbitrary: p Z R rule: rev_induct)
  case Nil
  have len: "length Z = p" using Nil.prems by simp
  show ?case
  proof (cases "p = 0")
    case True
    then show ?thesis using len by (simp add: applyDelta_finish_def)
  next
    case False
    have "copy src (int 0) (Z @ R) (int 0) (int p)
        = take 0 (Z @ R) @ take p (drop 0 src) @ drop (0 + p) (Z @ R)"
      using Nil.prems(2) len by (intro copy_range) simp_all
    then show ?thesis using False len by (simp add: applyDelta_finish_def)
  qed
next
  case (snoc e es)
  define cc where "cc = p - (start e + deleteCount e)"
  define gap where "gap = take cc (drop (start e + deleteCount e) src)"
  have ok: "edits_ok 0 es (start e)" and le: "start e + deleteCount e \<le> p"
    using snoc.prems(1) by (simp_all add: edits_ok_snoc)
  have split: "spec_spliced (take p src) 0 (es @ [e])
             = spec_spliced (take (start e) src) 0 es @ inserted e @ gap"
    unfolding gap_def cc_def by (rule spec_spliced_snoc [OF snoc.prems(1,2)])
  have gap_len: "length gap = cc" using le snoc.prems(2) by (simp add: gap_def cc_def)
  have lenZ: "length Z = length (spec_spliced (take (start e) src) 0 es)
                + length (inserted e) + cc"
    using snoc.prems(3) unfolding split by (simp add: gap_len)
  define Z' where "Z' = take (length Z - cc - length (inserted e)) Z"
  have lenZ': "length Z' = length (spec_spliced (take (start e) src) 0 es)"
    using lenZ by (simp add: Z'_def)
  have lenZ'': "length Z - cc - length (inserted e) = length Z'"
    using lenZ by (simp add: Z'_def)
  have room: "(p - (start e + deleteCount e)) + length (inserted e) \<le> length Z"
    using lenZ by (simp add: cc_def)
  have takeZ': "take (length Z') Z = Z'" using lenZ'' Z'_def by simp
  have step: "applyDelta_step src e (Z @ R, int p, int (length Z))
            = (Z' @ (inserted e @ gap @ R), int (start e), int (length Z'))"
    using applyDelta_step_ok [OF le snoc.prems(2) room, of R]
    unfolding cc_def [symmetric] gap_def [symmetric] lenZ'' takeZ' by simp
  have start_le: "start e \<le> length src" using le snoc.prems(2) by simp
  have "applyDelta_finish src (applyDelta_loop src (rev es)
          (Z' @ (inserted e @ gap @ R), int (start e), int (length Z')))
       = spec_spliced (take (start e) src) 0 es @ (inserted e @ gap @ R)"
    by (rule snoc.IH [OF ok start_le lenZ'])
  then show ?case unfolding split by (simp add: step)
qed

lemma applyDelta_data_spliced:
  assumes "edits_ok 0 es (length src)"
  shows "applyDelta_data src es = Inr (spec_spliced src 0 es)"
proof -
  have len: "int (length (spec_spliced src 0 es)) = int (length src) + deltaLength es"
    using length_spec_spliced [OF assms order_refl] by simp
  define Z :: "u32 list" where "Z = replicate (length (spec_spliced src 0 es)) 0"
  have new: "new_Uint32Array (int (length src) + deltaLength es) = Inr Z"
    unfolding len [symmetric] by (simp add: new_Uint32Array_def Z_def)
  have lenZ: "length Z = length (spec_spliced (take (length src) src) 0 es)"
    by (simp add: Z_def)
  have "applyDelta_finish src (applyDelta_loop src (rev es) (Z @ [], int (length src), int (length Z)))
      = spec_spliced (take (length src) src) 0 es @ []"
    by (rule applyDelta_loop_spliced [OF assms order_refl lenZ])
  then show ?thesis by (simp add: applyDelta_data_def new)
qed

text \<open>
  C1. For an edit list that satisfies the contract on the previous buffer (ascending starts in
  the list, which the loop takes from the last to the first, no edit reaching into the next,
  the last one ending inside the buffer), \<open>applyDelta\<close> returns a new array holding the
  previous buffer with, at each edit's start, \<open>deleteCount\<close> integers removed and the inserted
  data in their place; its length is the length of the previous buffer plus the sum over the
  edits of the inserted length minus \<open>deleteCount\<close>. The example of the specification is the
  witness.
\<close>

theorem applyDelta_splices:
  assumes "edits_ok 0 (edits delta) (length (arr h (data prev)))"
  shows "applyDelta h prev delta
           = Inr (h @ [spec_spliced (arr h (data prev)) 0 (edits delta)],
                  \<lparr>resultId = edits_resultId delta, data = length h\<rparr>)
       \<and> arr (h @ [spec_spliced (arr h (data prev)) 0 (edits delta)]) (length h)
           = spec_spliced (arr h (data prev)) 0 (edits delta)
       \<and> int (length (spec_spliced (arr h (data prev)) 0 (edits delta)))
           = int (length (arr h (data prev))) + deltaLength (edits delta)"
proof -
  have "int (length (spec_spliced (arr h (data prev)) 0 (edits delta)))
           = int (length (arr h (data prev))) + deltaLength (edits delta)"
    using length_spec_spliced [OF assms order_refl] by simp
  then show ?thesis
    by (simp add: applyDelta_eq applyDelta_data_spliced [OF assms] arr_alloc_new)
qed

theorem applyDelta_splices_witness:
  "edits_ok 0 (edits \<lparr>edits_resultId = Some ''r2'',
                      edits = [\<lparr>start = 5, deleteCount = 5, edit_data = Some [1, 0, 4, 3, 0]\<rparr>]\<rparr>)
     (length (arr [[0, 0, 3, 1, 0, 2, 0, 4, 2, 0]] (data \<lparr>resultId = Some ''r1'', data = 0\<rparr>)))
   \<and> applyDelta [[0, 0, 3, 1, 0, 2, 0, 4, 2, 0]] \<lparr>resultId = Some ''r1'', data = 0\<rparr>
        \<lparr>edits_resultId = Some ''r2'',
         edits = [\<lparr>start = 5, deleteCount = 5, edit_data = Some [1, 0, 4, 3, 0]\<rparr>]\<rparr>
      = Inr ([[0, 0, 3, 1, 0, 2, 0, 4, 2, 0], [0, 0, 3, 1, 0, 1, 0, 4, 3, 0]],
             \<lparr>resultId = Some ''r2'', data = 1\<rparr>)"
proof -
  have ok: "edits_ok 0 (edits \<lparr>edits_resultId = Some ''r2'',
                      edits = [\<lparr>start = 5, deleteCount = 5, edit_data = Some [1, 0, 4, 3, 0]\<rparr>]\<rparr>)
     (length (arr [[0, 0, 3, 1, 0, 2, 0, 4, 2, 0]] (data \<lparr>resultId = Some ''r1'', data = 0\<rparr>)))"
    by (simp add: arr_def)
  have sp: "spec_spliced (arr [[0, 0, 3, 1, 0, 2, 0, 4, 2, 0]] (data \<lparr>resultId = Some ''r1'', data = 0\<rparr>)) 0
       (edits \<lparr>edits_resultId = Some ''r2'',
                      edits = [\<lparr>start = 5, deleteCount = 5, edit_data = Some [1, 0, 4, 3, 0]\<rparr>]\<rparr>)
     = [0, 0, 3, 1, 0, 1, 0, 4, 3, 0]"
    by (simp add: arr_def inserted_def)
  from applyDelta_splices [OF ok] ok show ?thesis unfolding sp by simp
qed

section \<open>The store\<close>

lemma provideDocumentSemanticTokens_eq:
  "provideDocumentSemanticTokens g vis h st doc tokens =
     (\<lparr>resultId = resultId tokens, data = length h\<rparr>,
      st\<lparr>lastTokens := (lastTokens st)(doc \<mapsto> tokens),
         lastInactiveRanges := (lastInactiveRanges st)(doc \<mapsto> computeInactiveRanges g h tokens),
         decorations := setDecorations_visible vis doc (computeInactiveRanges g h tokens)
                          (decorations st)\<rparr>,
      h @ [replaceInactiveRanges_loop g (arr h (data tokens)) 0])"
  by (simp add: provideDocumentSemanticTokens_def replaceInactiveRanges_eq Let_def)

lemma provideDocumentSemanticTokens_at:
  assumes "length h = n" and "computeInactiveRanges g h tokens = rs"
    and "replaceInactiveRanges_loop g (arr h (data tokens)) 0 = d'"
  shows "provideDocumentSemanticTokens g vis h st doc tokens =
     (\<lparr>resultId = resultId tokens, data = n\<rparr>,
      st\<lparr>lastTokens := (lastTokens st)(doc \<mapsto> tokens),
         lastInactiveRanges := (lastInactiveRanges st)(doc \<mapsto> rs),
         decorations := setDecorations_visible vis doc rs (decorations st)\<rparr>,
      h @ [d'])"
  using assms by (simp add: provideDocumentSemanticTokens_eq)

text \<open>
  C4. When no tokens are stored for the document, or the stored tokens have a result id other
  than the previous result id of the request, \<open>provideDocumentSemanticTokensEdits\<close> returns the
  delta it was given, and the store and the heap are as they were.
\<close>

theorem delta_unresolved_returns_delta:
  assumes "lastTokens st doc = None
         \<or> (\<exists>previousTokens. lastTokens st doc = Some previousTokens
               \<and> resultId previousTokens \<noteq> Some previousResultId)"
  shows "provideDocumentSemanticTokensEdits g vis h st doc previousResultId (Delta delta)
           = Inr (Delta delta, st, h)"
  using assms by (auto simp: provideDocumentSemanticTokensEdits_def)

theorem delta_unresolved_returns_delta_witness:
  "lastTokens (empty_store\<lparr>lastTokens := (lastTokens empty_store)(1 \<mapsto> \<lparr>resultId = Some ''r1'', data = 0\<rparr>)\<rparr>) 1
      = Some \<lparr>resultId = Some ''r1'', data = 0\<rparr>
   \<and> resultId \<lparr>resultId = Some ''r1'', data = 0\<rparr> \<noteq> Some ''r0''
   \<and> provideDocumentSemanticTokensEdits
        \<lparr>inactiveCodeTokenTypeIndex = Some 0, inactiveCodeTokenTypeReplaceIndex = Some 2\<rparr>
        [(7, 1)] [[2, 4, 6, 0, 0]]
        (empty_store\<lparr>lastTokens := (lastTokens empty_store)(1 \<mapsto> \<lparr>resultId = Some ''r1'', data = 0\<rparr>)\<rparr>)
        1 ''r0''
        (Delta \<lparr>edits_resultId = Some ''r2'',
                edits = [\<lparr>start = 0, deleteCount = 5, edit_data = Some [1, 0, 4, 0, 0]\<rparr>]\<rparr>)
      = Inr (Delta \<lparr>edits_resultId = Some ''r2'',
                edits = [\<lparr>start = 0, deleteCount = 5, edit_data = Some [1, 0, 4, 0, 0]\<rparr>]\<rparr>,
             empty_store\<lparr>lastTokens := (lastTokens empty_store)(1 \<mapsto> \<lparr>resultId = Some ''r1'', data = 0\<rparr>)\<rparr>,
             [[2, 4, 6, 0, 0]])"
proof -
  have hyp: "lastTokens (empty_store\<lparr>lastTokens := (lastTokens empty_store)(1 \<mapsto> \<lparr>resultId = Some ''r1'', data = 0\<rparr>)\<rparr>) (1::nat) = None
     \<or> (\<exists>previousTokens. lastTokens (empty_store\<lparr>lastTokens := (lastTokens empty_store)(1 \<mapsto> \<lparr>resultId = Some ''r1'', data = 0\<rparr>)\<rparr>) 1
           = Some previousTokens
         \<and> resultId previousTokens \<noteq> Some ''r0'')"
    by simp
  from delta_unresolved_returns_delta [OF hyp]
  show ?thesis by simp
qed

text \<open>
  C9. After a full transmission the tokens stored for the document are the tokens given: their
  array is not the array returned, and it has the contents it had before, while the array
  returned has the replaced contents. After a delta that is applied, the tokens stored are the
  result of \<open>applyDelta\<close> on the tokens stored before: again their array holds the patched
  contents, without replacement, and the array returned is another one.
\<close>

theorem cached_tokens_are_the_input:
  "(\<forall>t out st' h'.
      data t < length h \<longrightarrow>
      provideDocumentSemanticTokens g vis h st doc t = (out, st', h') \<longrightarrow>
        lastTokens st' doc = Some t
        \<and> arr h' (data t) = arr h (data t)
        \<and> data out \<noteq> data t
        \<and> arr h' (data out) = replaceInactiveRanges_loop g (arr h (data t)) 0)
   \<and> (\<forall>delta out st' h'.
      provideDocumentSemanticTokensEdits g vis h st doc previousResultId (Delta delta)
        = Inr (Full out, st', h') \<longrightarrow>
        (\<exists>previousTokens patched cached.
           lastTokens st doc = Some previousTokens
           \<and> applyDelta_data (arr h (data previousTokens)) (edits delta) = Inr patched
           \<and> lastTokens st' doc = Some cached
           \<and> resultId cached = edits_resultId delta
           \<and> arr h' (data cached) = patched
           \<and> data out \<noteq> data cached
           \<and> arr h' (data out) = replaceInactiveRanges_loop g patched 0))"
proof (rule conjI; intro allI impI)
  fix t out st' h'
  assume valid: "data t < length h"
    and run: "provideDocumentSemanticTokens g vis h st doc t = (out, st', h')"
  have out: "out = \<lparr>resultId = resultId t, data = length h\<rparr>"
    and h': "h' = h @ [replaceInactiveRanges_loop g (arr h (data t)) 0]"
    and st': "lastTokens st' doc = Some t"
    using run by (auto simp: provideDocumentSemanticTokens_eq)
  show "lastTokens st' doc = Some t
        \<and> arr h' (data t) = arr h (data t)
        \<and> data out \<noteq> data t
        \<and> arr h' (data out) = replaceInactiveRanges_loop g (arr h (data t)) 0"
    using valid st' by (simp add: out h' arr_alloc_old arr_alloc_new)
next
  fix delta out st' h'
  assume run: "provideDocumentSemanticTokensEdits g vis h st doc previousResultId (Delta delta)
        = Inr (Full out, st', h')"
  from run obtain previousTokens where prev: "lastTokens st doc = Some previousTokens"
    by (auto simp: provideDocumentSemanticTokensEdits_def split: option.splits)
  from run prev have match: "resultId previousTokens = Some previousResultId"
    by (auto simp: provideDocumentSemanticTokensEdits_def split: if_splits)
  from run prev match obtain patched where
    patched: "applyDelta_data (arr h (data previousTokens)) (edits delta) = Inr patched"
    by (auto simp: provideDocumentSemanticTokensEdits_def applyDelta_eq split: sum.splits)
  define cached where "cached = \<lparr>resultId = edits_resultId delta, data = length h\<rparr>"
  have res: "provideDocumentSemanticTokens g vis (h @ [patched]) st doc cached = (out, st', h')"
    using run prev match patched
    by (auto simp: provideDocumentSemanticTokensEdits_def applyDelta_eq cached_def
             split: prod.splits)
  have out: "out = \<lparr>resultId = resultId cached, data = length (h @ [patched])\<rparr>"
    and h': "h' = (h @ [patched]) @ [replaceInactiveRanges_loop g (arr (h @ [patched]) (data cached)) 0]"
    and st': "lastTokens st' doc = Some cached"
    using res by (auto simp: provideDocumentSemanticTokens_eq)
  have c: "arr (h @ [patched]) (data cached) = patched"
    by (simp add: cached_def arr_alloc_new)
  have "arr h' (data cached) = patched"
    unfolding h' using arr_alloc_old [of "data cached" "h @ [patched]"] c by (simp add: cached_def)
  moreover have "arr h' (data out) = replaceInactiveRanges_loop g patched 0"
    unfolding h' out c using arr_alloc_new [of "h @ [patched]"] by simp
  moreover have "data out \<noteq> data cached" by (simp add: out cached_def)
  moreover have "resultId cached = edits_resultId delta" by (simp add: cached_def)
  ultimately show "\<exists>previousTokens patched cached.
           lastTokens st doc = Some previousTokens
           \<and> applyDelta_data (arr h (data previousTokens)) (edits delta) = Inr patched
           \<and> lastTokens st' doc = Some cached
           \<and> resultId cached = edits_resultId delta
           \<and> arr h' (data cached) = patched
           \<and> data out \<noteq> data cached
           \<and> arr h' (data out) = replaceInactiveRanges_loop g patched 0"
    using prev patched st' by blast
qed

theorem cached_tokens_are_the_input_witness:
  "data \<lparr>resultId = Some ''r1'', data = 0\<rparr> < length [[0, 0, 3, 0, 0, 2, 0, 4, 1, 0 :: u32]]
   \<and> provideDocumentSemanticTokens
        \<lparr>inactiveCodeTokenTypeIndex = Some 0, inactiveCodeTokenTypeReplaceIndex = Some 2\<rparr>
        [] [[0, 0, 3, 0, 0, 2, 0, 4, 1, 0]] empty_store 7 \<lparr>resultId = Some ''r1'', data = 0\<rparr>
      = (\<lparr>resultId = Some ''r1'', data = 1\<rparr>,
         empty_store\<lparr>lastTokens := (lastTokens empty_store)(7 \<mapsto> \<lparr>resultId = Some ''r1'', data = 0\<rparr>),
                     lastInactiveRanges := (lastInactiveRanges empty_store)(7 \<mapsto>
                       [\<lparr>startLine = Num 0, startCharacter = Num 0, endLine = Num 0,
                         endCharacter = Num 3\<rparr>]),
                     decorations := decorations empty_store\<rparr>,
         [[0, 0, 3, 0, 0, 2, 0, 4, 1, 0], [0, 0, 3, 2, 0, 2, 0, 4, 1, 0]])
   \<and> arr [[0, 0, 3, 0, 0, 2, 0, 4, 1, 0], [0, 0, 3, 2, 0, 2, 0, 4, 1, 0]]
         (data \<lparr>resultId = Some ''r1'', data = 0\<rparr>)
      = arr [[0, 0, 3, 0, 0, 2, 0, 4, 1, 0]] (data \<lparr>resultId = Some ''r1'', data = 0\<rparr>)
   \<and> provideDocumentSemanticTokensEdits
        \<lparr>inactiveCodeTokenTypeIndex = Some 0, inactiveCodeTokenTypeReplaceIndex = Some 2\<rparr>
        [] [[0, 0, 3, 0, 0, 2, 0, 4, 1, 0], [0, 0, 3, 2, 0, 2, 0, 4, 1, 0]]
        (empty_store\<lparr>lastTokens := (lastTokens empty_store)(7 \<mapsto> \<lparr>resultId = Some ''r1'', data = 0\<rparr>)\<rparr>)
        7 ''r1''
        (Delta \<lparr>edits_resultId = Some ''r2'',
                edits = [\<lparr>start = 5, deleteCount = 5, edit_data = Some [1, 0, 4, 0, 0]\<rparr>]\<rparr>)
      = Inr (Full \<lparr>resultId = Some ''r2'', data = 3\<rparr>,
             empty_store\<lparr>lastTokens := (lastTokens empty_store)(7 \<mapsto> \<lparr>resultId = Some ''r2'', data = 2\<rparr>),
                     lastInactiveRanges := (lastInactiveRanges empty_store)(7 \<mapsto>
                       [\<lparr>startLine = Num 0, startCharacter = Num 0, endLine = Num 0,
                         endCharacter = Num 3\<rparr>,
                        \<lparr>startLine = Num 1, startCharacter = Num 0, endLine = Num 1,
                         endCharacter = Num 4\<rparr>]),
                     decorations := decorations empty_store\<rparr>,
             [[0, 0, 3, 0, 0, 2, 0, 4, 1, 0], [0, 0, 3, 2, 0, 2, 0, 4, 1, 0],
              [0, 0, 3, 0, 0, 1, 0, 4, 0, 0], [0, 0, 3, 2, 0, 1, 0, 4, 2, 0]])
   \<and> arr [[0, 0, 3, 0, 0, 2, 0, 4, 1, 0], [0, 0, 3, 2, 0, 2, 0, 4, 1, 0],
          [0, 0, 3, 0, 0, 1, 0, 4, 0, 0], [0, 0, 3, 2, 0, 1, 0, 4, 2, 0]]
         (data \<lparr>resultId = Some ''r2'', data = 2\<rparr>)
      = [0, 0, 3, 0, 0, 1, 0, 4, 0, 0]"
proof -
  let ?g = "\<lparr>inactiveCodeTokenTypeIndex = Some 0, inactiveCodeTokenTypeReplaceIndex = Some 2\<rparr>"
  let ?h0 = "[[0, 0, 3, 0, 0, 2, 0, 4, 1, 0 :: u32]]"
  let ?h1 = "[[0, 0, 3, 0, 0, 2, 0, 4, 1, 0], [0, 0, 3, 2, 0, 2, 0, 4, 1, 0 :: u32]]"
  let ?h2 = "[[0, 0, 3, 0, 0, 2, 0, 4, 1, 0], [0, 0, 3, 2, 0, 2, 0, 4, 1, 0],
              [0, 0, 3, 0, 0, 1, 0, 4, 0, 0 :: u32]]"
  let ?h3 = "[[0, 0, 3, 0, 0, 2, 0, 4, 1, 0], [0, 0, 3, 2, 0, 2, 0, 4, 1, 0],
              [0, 0, 3, 0, 0, 1, 0, 4, 0, 0], [0, 0, 3, 2, 0, 1, 0, 4, 2, 0 :: u32]]"
  let ?t1 = "\<lparr>resultId = Some ''r1'', data = 0\<rparr>"
  let ?t2 = "\<lparr>resultId = Some ''r2'', data = 2\<rparr>"
  let ?st1 = "empty_store\<lparr>lastTokens := (lastTokens empty_store)(7 \<mapsto> ?t1)\<rparr>"
  let ?st2 = "empty_store\<lparr>lastTokens := (lastTokens empty_store)(7 \<mapsto> ?t2),
                     lastInactiveRanges := (lastInactiveRanges empty_store)(7 \<mapsto>
                       [\<lparr>startLine = Num 0, startCharacter = Num 0, endLine = Num 0,
                         endCharacter = Num 3\<rparr>,
                        \<lparr>startLine = Num 1, startCharacter = Num 0, endLine = Num 1,
                         endCharacter = Num 4\<rparr>]),
                     decorations := decorations empty_store\<rparr>"
  let ?delta = "\<lparr>edits_resultId = Some ''r2'',
                edits = [\<lparr>start = 5, deleteCount = 5, edit_data = Some [1, 0, 4, 0, 0]\<rparr>]\<rparr>"
  have valid: "data ?t1 < length ?h0" by simp
  have c1: "computeInactiveRanges ?g ?h0 ?t1
      = [\<lparr>startLine = Num 0, startCharacter = Num 0, endLine = Num 0, endCharacter = Num 3\<rparr>]"
    by (simp add: ranges_eval)
  have r1: "replaceInactiveRanges_loop ?g (arr ?h0 (data ?t1)) 0 = [0, 0, 3, 2, 0, 2, 0, 4, 1, 0]"
    by code_simp
  have l0: "length ?h0 = 1" and l1: "length ?h1 = 2" and l2: "length ?h2 = 3" by simp_all
  have run1: "provideDocumentSemanticTokens ?g [] ?h0 empty_store 7 ?t1
      = (\<lparr>resultId = Some ''r1'', data = 1\<rparr>,
         empty_store\<lparr>lastTokens := (lastTokens empty_store)(7 \<mapsto> ?t1),
                     lastInactiveRanges := (lastInactiveRanges empty_store)(7 \<mapsto>
                       [\<lparr>startLine = Num 0, startCharacter = Num 0, endLine = Num 0,
                         endCharacter = Num 3\<rparr>]),
                     decorations := decorations empty_store\<rparr>,
         ?h1)"
    using provideDocumentSemanticTokens_at [OF l0 c1 r1, of "[]" empty_store 7] by simp
  have a: "applyDelta_data (arr ?h1 (data ?t1)) (edits ?delta) = Inr [0, 0, 3, 0, 0, 1, 0, 4, 0, 0]"
    by code_simp
  have c2: "computeInactiveRanges ?g ?h2 ?t2
      = [\<lparr>startLine = Num 0, startCharacter = Num 0, endLine = Num 0, endCharacter = Num 3\<rparr>,
         \<lparr>startLine = Num 1, startCharacter = Num 0, endLine = Num 1, endCharacter = Num 4\<rparr>]"
    by (simp add: ranges_eval)
  have r2: "replaceInactiveRanges_loop ?g (arr ?h2 (data ?t2)) 0 = [0, 0, 3, 2, 0, 1, 0, 4, 2, 0]"
    by code_simp
  have ad: "applyDelta ?h1 ?t1 ?delta = Inr (?h2, ?t2)"
    using applyDelta_at [OF l1 a] by simp
  have pv: "provideDocumentSemanticTokens ?g [] ?h2 ?st1 7 ?t2
          = (\<lparr>resultId = Some ''r2'', data = 3\<rparr>, ?st2, ?h2 @ [[0, 0, 3, 2, 0, 1, 0, 4, 2, 0]])"
    using provideDocumentSemanticTokens_at [OF l2 c2 r2, of "[]" ?st1 7] by simp
  have run2: "provideDocumentSemanticTokensEdits ?g [] ?h1 ?st1 7 ''r1'' (Delta ?delta)
      = Inr (Full \<lparr>resultId = Some ''r2'', data = 3\<rparr>, ?st2, ?h3)"
    by (simp add: provideDocumentSemanticTokensEdits_def ad pv)
  note inst = cached_tokens_are_the_input [where g = ?g and vis = "[]" and doc = 7]
  from inst [where h = ?h0 and st = empty_store] valid run1
  have full: "arr ?h1 (data ?t1) = arr ?h0 (data ?t1)"
    by blast
  from inst [where h = ?h1 and st = ?st1 and previousResultId = "''r1''"] run2
  obtain patched cached where
    "applyDelta_data (arr ?h1 (data ?t1)) (edits ?delta) = Inr patched"
    "lastTokens ?st2 7 = Some cached" "arr ?h3 (data cached) = patched"
    by fastforce
  then have patched: "arr ?h3 (data ?t2) = [0, 0, 3, 0, 0, 1, 0, 4, 0, 0]"
    using a by simp
  show ?thesis using valid run1 full run2 patched by blast
qed

section \<open>An undefined index, a partial last record\<close>



text \<open>
  C5 as stated fails: there is no check of the length. For the buffer \<open>[7, 0, 3]\<close> the tokens
  are recorded as the last tokens of the document and a copy of the buffer is returned.
\<close>

theorem partial_record_cached_counterexample:
  "length (arr [[7, 0, 3]] (data \<lparr>resultId = Some ''r1'', data = 0\<rparr>)) mod 5 \<noteq> 0
   \<and> provideDocumentSemanticTokens
        \<lparr>inactiveCodeTokenTypeIndex = Some 0, inactiveCodeTokenTypeReplaceIndex = Some 2\<rparr>
        [] [[7, 0, 3]] empty_store 1 \<lparr>resultId = Some ''r1'', data = 0\<rparr>
      = (\<lparr>resultId = Some ''r1'', data = 1\<rparr>,
         empty_store\<lparr>lastTokens := (lastTokens empty_store)(1 \<mapsto> \<lparr>resultId = Some ''r1'', data = 0\<rparr>),
                     lastInactiveRanges := (lastInactiveRanges empty_store)(1 \<mapsto> []),
                     decorations := decorations empty_store\<rparr>,
         [[7, 0, 3], [7, 0, 3]])"
proof -
  have c: "computeInactiveRanges
        \<lparr>inactiveCodeTokenTypeIndex = Some 0, inactiveCodeTokenTypeReplaceIndex = Some 2\<rparr>
        [[7, 0, 3]] \<lparr>resultId = Some ''r1'', data = 0\<rparr> = []"
    by (simp add: ranges_eval)
  have r: "replaceInactiveRanges_loop
        \<lparr>inactiveCodeTokenTypeIndex = Some 0, inactiveCodeTokenTypeReplaceIndex = Some 2\<rparr>
        [7, 0, 3] 0 = [7, 0, 3]"
    by code_simp
  show ?thesis by (simp add: provideDocumentSemanticTokens_eq c arr_def r)
qed

text \<open>
  C5, as the code has it. For a buffer \<open>d\<close> whose length is not a multiple of 5, with \<open>n\<close>
  whole records, \<open>provideDocumentSemanticTokens\<close> does not fail. It records the tokens as the
  last tokens of the document, together with the ranges of \<open>computeInactiveRanges\<close>. These
  are what one more round of the loop makes of the state reached on the \<open>n\<close> whole records:
  the round of the trailing integers, read as a last record from offset \<open>5 * n\<close>, whose first
  field is there, whose last field is not, and whose missing fields are \<open>undefined\<close>. The array
  returned is new and has the length of the buffer; in it every element at offset 3 of a
  record, the partial one included, that equals the index is replaced, and every other
  element is that of the buffer.
\<close>

theorem partial_record_processed:
  assumes "length (arr h (data tokens)) mod 5 \<noteq> 0"
    and "d = arr h (data tokens)" and "n = length d div 5"
  shows "fst (provideDocumentSemanticTokens g vis h st doc tokens)
           = \<lparr>resultId = resultId tokens, data = length h\<rparr>
       \<and> lastTokens (fst (snd (provideDocumentSemanticTokens g vis h st doc tokens))) doc
           = Some tokens
       \<and> lastInactiveRanges (fst (snd (provideDocumentSemanticTokens g vis h st doc tokens))) doc
           = Some (computeInactiveRanges g h tokens)
       \<and> computeInactiveRanges g h tokens
           = snd (snd (token_round g
                         (computeInactiveRanges_loop g (take (5 * n) d) 0 (Num 0, Num 0, []))
                         (to_jsval (rd d (int (5 * n)))) (to_jsval (rd d (int (5 * n + 1))))
                         (to_jsval (rd d (int (5 * n + 2)))) (to_jsval (rd d (int (5 * n + 3))))))
       \<and> rd d (int (5 * n)) = Some (d ! (5 * n))
       \<and> rd d (int (5 * n + 4)) = None
       \<and> length (arr (snd (snd (provideDocumentSemanticTokens g vis h st doc tokens))) (length h))
           = length d
       \<and> (\<forall>k. k < length d \<longrightarrow>
            arr (snd (snd (provideDocumentSemanticTokens g vis h st doc tokens))) (length h) ! k
              = (if k mod 5 = 3 \<and> inactiveCodeTokenTypeIndex g = Some (unat (d ! k))
                 then replacement g else d ! k))"
proof -
  have part: "length d mod 5 \<noteq> 0" using assms(1,2) by simp
  have ranges: "computeInactiveRanges g h tokens
           = snd (snd (token_round g
                         (computeInactiveRanges_loop g (take (5 * n) d) 0 (Num 0, Num 0, []))
                         (to_jsval (rd d (int (5 * n)))) (to_jsval (rd d (int (5 * n + 1))))
                         (to_jsval (rd d (int (5 * n + 2)))) (to_jsval (rd d (int (5 * n + 3))))))"
    unfolding computeInactiveRanges_def assms(2) [symmetric]
    by (simp only: computeInactiveRanges_loop_partial [OF part assms(3)])
  have copy: "arr (snd (snd (provideDocumentSemanticTokens g vis h st doc tokens))) (length h)
      = replaceInactiveRanges_loop g d 0"
    by (simp add: provideDocumentSemanticTokens_eq arr_alloc_new assms(2))
  have elems: "\<forall>k. k < length d \<longrightarrow>
            replaceInactiveRanges_loop g d 0 ! k
              = (if k mod 5 = 3 \<and> inactiveCodeTokenTypeIndex g = Some (unat (d ! k))
                 then replacement g else d ! k)"
    by (simp add: nth_replace_loop)
  show ?thesis
    using ranges partial_record_reads [OF part assms(3)] elems
    unfolding copy by (simp add: provideDocumentSemanticTokens_eq)
qed

theorem partial_record_processed_witness:
  "length (arr [[2, 4, 6, 0, 0, 1, 3, 2, 0]] (data \<lparr>resultId = Some ''r1'', data = 0\<rparr>)) mod 5 \<noteq> 0
   \<and> computeInactiveRanges
        \<lparr>inactiveCodeTokenTypeIndex = Some 0, inactiveCodeTokenTypeReplaceIndex = Some 2\<rparr>
        [[2, 4, 6, 0, 0, 1, 3, 2, 0]] \<lparr>resultId = Some ''r1'', data = 0\<rparr>
      = snd (snd (token_round
                    \<lparr>inactiveCodeTokenTypeIndex = Some 0, inactiveCodeTokenTypeReplaceIndex = Some 2\<rparr>
                    (computeInactiveRanges_loop
                       \<lparr>inactiveCodeTokenTypeIndex = Some 0, inactiveCodeTokenTypeReplaceIndex = Some 2\<rparr>
                       [2, 4, 6, 0, 0] 0 (Num 0, Num 0, []))
                    (Num 1) (Num 3) (Num 2) (Num 0)))
   \<and> computeInactiveRanges
        \<lparr>inactiveCodeTokenTypeIndex = Some 0, inactiveCodeTokenTypeReplaceIndex = Some 2\<rparr>
        [[2, 4, 6, 0, 0, 1, 3, 2, 0]] \<lparr>resultId = Some ''r1'', data = 0\<rparr>
      = [\<lparr>startLine = Num 2, startCharacter = Num 4, endLine = Num 2, endCharacter = Num 10\<rparr>,
         \<lparr>startLine = Num 3, startCharacter = Num 3, endLine = Num 3, endCharacter = Num 5\<rparr>]
   \<and> lastTokens (fst (snd (provideDocumentSemanticTokens
        \<lparr>inactiveCodeTokenTypeIndex = Some 0, inactiveCodeTokenTypeReplaceIndex = Some 2\<rparr>
        [] [[2, 4, 6, 0, 0, 1, 3, 2, 0]] empty_store 7 \<lparr>resultId = Some ''r1'', data = 0\<rparr>))) 7
      = Some \<lparr>resultId = Some ''r1'', data = 0\<rparr>
   \<and> arr (snd (snd (provideDocumentSemanticTokens
        \<lparr>inactiveCodeTokenTypeIndex = Some 0, inactiveCodeTokenTypeReplaceIndex = Some 2\<rparr>
        [] [[2, 4, 6, 0, 0, 1, 3, 2, 0]] empty_store 7 \<lparr>resultId = Some ''r1'', data = 0\<rparr>))) 1
      = [2, 4, 6, 2, 0, 1, 3, 2, 2]"
proof -
  let ?g = "\<lparr>inactiveCodeTokenTypeIndex = Some 0, inactiveCodeTokenTypeReplaceIndex = Some 2\<rparr>"
  let ?d = "[2, 4, 6, 0, 0, 1, 3, 2, 0] :: u32 list"
  let ?t = "\<lparr>resultId = Some ''r1'', data = 0\<rparr>"
  have a: "arr [?d] (data ?t) = ?d" by (simp add: arr_def)
  have len: "length (arr [?d] (data ?t)) mod 5 \<noteq> 0" unfolding a by simp
  note inst = partial_record_processed [OF len refl refl, of ?g "[]" empty_store 7]
  have n: "length ?d div 5 = 1" by simp
  have pre: "take (5 * 1) ?d = [2, 4, 6, 0, 0]" by simp
  have reads: "to_jsval (rd ?d (int (5 * 1))) = Num 1" "to_jsval (rd ?d (int (5 * 1 + 1))) = Num 3"
    "to_jsval (rd ?d (int (5 * 1 + 2))) = Num 2" "to_jsval (rd ?d (int (5 * 1 + 3))) = Num 0"
    by (simp_all add: to_jsval_def rd_def)
  have ranges: "computeInactiveRanges ?g [?d] ?t
      = snd (snd (token_round ?g (computeInactiveRanges_loop ?g [2, 4, 6, 0, 0] 0 (Num 0, Num 0, []))
                    (Num 1) (Num 3) (Num 2) (Num 0)))"
    using inst [THEN conjunct2, THEN conjunct2, THEN conjunct2, THEN conjunct1]
    unfolding a unfolding n unfolding pre reads .
  have evaluated: "snd (snd (token_round ?g
                    (computeInactiveRanges_loop ?g [2, 4, 6, 0, 0] 0 (Num 0, Num 0, []))
                    (Num 1) (Num 3) (Num 2) (Num 0)))
      = [\<lparr>startLine = Num 2, startCharacter = Num 4, endLine = Num 2, endCharacter = Num 10\<rparr>,
         \<lparr>startLine = Num 3, startCharacter = Num 3, endLine = Num 3, endCharacter = Num 5\<rparr>]"
    by (simp add: ranges_eval)
  have cached: "lastTokens (fst (snd (provideDocumentSemanticTokens ?g [] [?d] empty_store 7 ?t))) 7
      = Some ?t"
    by (rule inst [THEN conjunct2, THEN conjunct1])
  have r: "replaceInactiveRanges_loop ?g ?d 0 = [2, 4, 6, 2, 0, 1, 3, 2, 2]"
    by code_simp
  have forwarded: "arr (snd (snd (provideDocumentSemanticTokens ?g [] [?d] empty_store 7 ?t))) 1
      = [2, 4, 6, 2, 0, 1, 3, 2, 2]"
    by (simp add: provideDocumentSemanticTokens_eq arr_def r)
  from ranges evaluated have listed: "computeInactiveRanges ?g [?d] ?t
      = [\<lparr>startLine = Num 2, startCharacter = Num 4, endLine = Num 2, endCharacter = Num 10\<rparr>,
         \<lparr>startLine = Num 3, startCharacter = Num 3, endLine = Num 3, endCharacter = Num 5\<rparr>]"
    by (rule trans)
  show ?thesis by (intro conjI) (rule len ranges listed cached forwarded)+
qed

end
